theory Spec2Isabelle
  imports Main "HOL-Library.Word"
begin

section \<open>Data model of proxy/connection.go\<close>

text \<open>
  The file \<^verbatim>\<open>proxy/connection.go\<close> pairs a client-facing connection with a
  server-facing one inside a \<^verbatim>\<open>ConnContext\<close>.  One session is modelled: one
  \<^verbatim>\<open>ConnContext\<close>, the wrappers that may point back to it, and the list of
  effects the code performs on its collaborators (addons, the TLS library, the
  certificate authority, the transport).

  Go values that the file only passes around are kept abstract: an \<^verbatim>\<open>error\<close> is
  a message, a raw \<^verbatim>\<open>net.Conn\<close> is a number, an addon is a number, a UUID is a
  number.  A \<^verbatim>\<open>nil\<close> pointer or interface is \<open>None\<close>.  Field names carry a
  prefix where two structs of the source use the same name (\<^verbatim>\<open>Id\<close>, \<^verbatim>\<open>Conn\<close>,
  \<^verbatim>\<open>proxy\<close>, \<^verbatim>\<open>ServerName\<close>, \<^verbatim>\<open>CipherSuites\<close>).  The calls to
  \<^verbatim>\<open>log.Debugln\<close> are not modelled.
\<close>

datatype error = Error string

text \<open>Run-time panics of Go that the code of this file can raise.\<close>

datatype fault = NilDereference | CloseOfClosedChannel

type_synonym uint16 = "16 word"

text \<open>
  A \<^verbatim>\<open>net.Conn\<close> interface value: a raw transport connection, or a pointer to a
  \<^verbatim>\<open>wrapClientConn\<close> or \<^verbatim>\<open>wrapServerConn\<close> (its position in the store of
  wrappers).
\<close>

datatype conn = RawConn nat | WrapClient nat | WrapServer nat

record Proxy =
  Addons :: "nat list"
  SslInsecure :: bool

record Config =
  InsecureSkipVerify :: bool
  KeyLogWriter :: "nat option"
  ServerName :: string
  NextProtos :: "string list"
  CipherSuites :: "uint16 list"
  MinVersion :: uint16
  MaxVersion :: uint16

record ClientHelloInfo =
  hello_ServerName :: string
  hello_CipherSuites :: "uint16 list"
  SupportedVersions :: "uint16 list"

datatype ConnectionState = ConnectionState (Version: uint16) (CipherSuite: uint16)

text \<open>The value \<^verbatim>\<open>tls.Client(conn, cfg)\<close>.\<close>

datatype tls_Conn = tls_Client "conn option" Config

datatype Certificate = Certificate string

text \<open>
  The dispatch client.  Its dial hook is one of the two closures of the file; the
  other fields are the literals the source writes.
\<close>

datatype dial_hook = DialContext_tcp | DialTLSContext_rendezvous

record http_Client =
  dial :: dial_hook
  ForceAttemptHTTP2 :: bool
  DisableCompression :: bool
  TLSClientConfig :: "Config option"
  CheckRedirect_ErrUseLastResponse :: bool

record ClientConn_t =
  cc_Id :: nat
  cc_Conn :: "conn option"
  Tls :: bool

text \<open>
  \<open>tlsHandshaked\<close> is the channel \<^verbatim>\<open>chan struct{}\<close>: nothing is ever sent on it, so
  its state is whether it has been closed.
\<close>

record ServerConn_t =
  sc_Id :: nat
  Address :: string
  sc_Conn :: "conn option"
  tlsHandshaked :: bool
  tlsHandshakeErr :: "error option"
  tlsConn :: "tls_Conn option"
  tlsState :: "ConnectionState option"
  client :: "http_Client option"

record pipeConn_t =
  host :: string

record ConnContext =
  ClientConn :: "ClientConn_t option"
  ServerConn :: "ServerConn_t option"
  ctx_proxy :: Proxy
  pipeConn :: "pipeConn_t option"

text \<open>
  \<^verbatim>\<open>wrapClientConn\<close> and \<^verbatim>\<open>wrapServerConn\<close> have the same fields.  \<open>Conn\<close> is the
  embedded raw connection; \<open>connCtx\<close> is \<open>None\<close> for the nil pointer (as
  \<^verbatim>\<open>wrapListener.Accept\<close> leaves it) and \<open>Some ()\<close> for a pointer to the
  session's context.  The proxy is never written by this file, so a pointer to it is
  modelled by its value.
\<close>

record wrapConn =
  Conn :: nat
  proxy :: Proxy
  connCtx :: "unit option"
  closed :: bool
  closeErr :: "error option"

text \<open>
  Effects on the collaborators, in the order the code performs them.  An event of
  a wrapper's \<^verbatim>\<open>Close\<close> records the wrapper that performed it.
\<close>

datatype event =
    Dial string
  | Handshake "conn option" Config
  | CloseSignal
  | GetCert string
  | RawClose nat
  | UnderlyingClose conn nat
  | ServerConnected nat
  | ClientDisconnected conn nat
  | ServerDisconnected conn nat

text \<open>
  The collaborators answer through an environment: \<^verbatim>\<open>uuid.NewV4\<close> (the n-th
  draw), \<^verbatim>\<open>net.Dialer.DialContext\<close> on \<^verbatim>\<open>"tcp"\<close>, the TLS handshake of
  \<^verbatim>\<open>tls.Conn.HandshakeContext\<close> together with the \<^verbatim>\<open>ConnectionState\<close> read
  after it (asked only for a connection that is not nil), the certificate authority's \<^verbatim>\<open>GetCert\<close>, the \<^verbatim>\<open>Close\<close> of a raw
  connection (which may depend on what happened before), and
  \<^verbatim>\<open>getTlsKeyLogWriter\<close>.
\<close>

record env =
  NewV4 :: "nat \<Rightarrow> nat"
  DialContext :: "string \<Rightarrow> error + nat"
  HandshakeContext :: "conn option \<Rightarrow> Config \<Rightarrow> error + ConnectionState"
  ca_GetCert :: "string \<Rightarrow> Certificate option \<times> error option"
  raw_Close :: "event list \<Rightarrow> nat \<Rightarrow> error option"
  getTlsKeyLogWriter :: "nat option"

record world =
  ctx :: ConnContext
  clientWraps :: "wrapConn list"
  serverWraps :: "wrapConn list"
  uuids :: nat
  trace :: "event list"

definition emit :: "event list \<Rightarrow> world \<Rightarrow> world" where
  "emit es w = w\<lparr>trace := trace w @ es\<rparr>"

text \<open>The events a call adds to the trace.\<close>

definition new_events :: "world \<Rightarrow> world \<Rightarrow> event list" where
  "new_events w w' = drop (length (trace w)) (trace w')"

section \<open>Constructors\<close>

definition newClientConn :: "env \<Rightarrow> conn option \<Rightarrow> world \<Rightarrow> ClientConn_t \<times> world" where
  "newClientConn e c w =
     (\<lparr>cc_Id = NewV4 e (uuids w), cc_Conn = c, Tls = False\<rparr>, w\<lparr>uuids := Suc (uuids w)\<rparr>)"

definition newServerConn :: "env \<Rightarrow> world \<Rightarrow> ServerConn_t \<times> world" where
  "newServerConn e w =
     (\<lparr>sc_Id = NewV4 e (uuids w), Address = [], sc_Conn = None, tlsHandshaked = False,
       tlsHandshakeErr = None, tlsConn = None, tlsState = None, client = None\<rparr>,
      w\<lparr>uuids := Suc (uuids w)\<rparr>)"

section \<open>getCertificate\<close>

text \<open>
  The loop of lines 175-182 over \<^verbatim>\<open>clientHello.SupportedVersions\<close>, with the two
  running values \<^verbatim>\<open>minVersion\<close> and \<^verbatim>\<open>maxVersion\<close>.  The comparison of
  \<^verbatim>\<open>uint16\<close> is unsigned, as \<open><\<close> on words is.
\<close>

fun version_loop :: "uint16 list \<Rightarrow> uint16 \<Rightarrow> uint16 \<Rightarrow> uint16 \<times> uint16" where
  "version_loop [] minVersion maxVersion = (minVersion, maxVersion)"
| "version_loop (version # vs) minVersion maxVersion =
     version_loop vs (if version < minVersion then version else minVersion)
                     (if version > maxVersion then version else maxVersion)"

text \<open>Lines 164-185: the upstream TLS configuration.\<close>

definition upstream_cfg :: "env \<Rightarrow> Proxy \<Rightarrow> ClientHelloInfo \<Rightarrow> Config" where
  "upstream_cfg e p clientHello =
     (let cfg = \<lparr>InsecureSkipVerify = SslInsecure p,
                 KeyLogWriter = getTlsKeyLogWriter e,
                 ServerName = hello_ServerName clientHello,
                 NextProtos = [''http/1.1''],
                 CipherSuites = hello_CipherSuites clientHello,
                 MinVersion = 0, MaxVersion = 0\<rparr>
      in case SupportedVersions clientHello of
           [] \<Rightarrow> cfg
         | v0 # _ \<Rightarrow>
             (case version_loop (SupportedVersions clientHello) v0 v0 of
                (minVersion, maxVersion) \<Rightarrow>
                  cfg\<lparr>MinVersion := minVersion, MaxVersion := maxVersion\<rparr>))"

text \<open>
  \<^verbatim>\<open>close(connCtx.ServerConn.tlsHandshaked)\<close>: closing a closed channel panics.
\<close>

definition close_tlsHandshaked :: "ServerConn_t \<Rightarrow> world \<Rightarrow> fault + world" where
  "close_tlsHandshaked sc w =
     (if tlsHandshaked sc then Inl CloseOfClosedChannel
      else Inr (emit [CloseSignal] (w\<lparr>ctx := (ctx w)\<lparr>ServerConn := Some (sc\<lparr>tlsHandshaked := True\<rparr>)\<rparr>\<rparr>)))"

text \<open>
  Lines 163-202.  The result is a panic, or the pair \<^verbatim>\<open>(*tls.Certificate, error)\<close>
  the function returns.  \<^verbatim>\<open>connCtx.ServerConn.Conn\<close> at line 187 panics when the
  context has no \<^verbatim>\<open>ServerConn\<close>.  When the \<^verbatim>\<open>ServerConn\<close> has no connection
  (\<^verbatim>\<open>Conn\<close> is nil, as \<^verbatim>\<open>newServerConn\<close> and a failed dial leave it),
  \<^verbatim>\<open>tls.Client\<close> wraps the nil connection and the handshake of line 188 panics
  inside \<^verbatim>\<open>crypto/tls\<close> on its first use: neither branch runs and the channel
  stays open.  The certificate authority is reached through
  \<^verbatim>\<open>connCtx.proxy.interceptor.(*middle).ca\<close>, declared elsewhere; it is the
  environment's \<open>ca_GetCert\<close>.
\<close>

definition getCertificate ::
  "env \<Rightarrow> ClientHelloInfo \<Rightarrow> world \<Rightarrow> (fault + Certificate option \<times> error option) \<times> world" where
  "getCertificate e clientHello w =
     (let cfg = upstream_cfg e (ctx_proxy (ctx w)) clientHello
      in case ServerConn (ctx w) of
           None \<Rightarrow> (Inl NilDereference, w)
         | Some sc \<Rightarrow>
             (let tc = tls_Client (sc_Conn sc) cfg;
                  w1 = emit [Handshake (sc_Conn sc) cfg] w
              in case sc_Conn sc of
                   None \<Rightarrow> (Inl NilDereference, w1)
                 | Some _ \<Rightarrow>
                     (case HandshakeContext e (sc_Conn sc) cfg of
                        Inl err \<Rightarrow>
                          (let sc1 = sc\<lparr>tlsHandshakeErr := Some err\<rparr>;
                               w2 = w1\<lparr>ctx := (ctx w1)\<lparr>ServerConn := Some sc1\<rparr>\<rparr>
                           in case close_tlsHandshaked sc1 w2 of
                                Inl f \<Rightarrow> (Inl f, w2)
                              | Inr w3 \<Rightarrow> (Inr (None, Some err), w3))
                      | Inr st \<Rightarrow>
                          (let sc1 = sc\<lparr>tlsConn := Some tc, tlsState := Some st\<rparr>;
                               w2 = w1\<lparr>ctx := (ctx w1)\<lparr>ServerConn := Some sc1\<rparr>\<rparr>
                           in case close_tlsHandshaked sc1 w2 of
                                Inl f \<Rightarrow> (Inl f, w2)
                              | Inr w3 \<Rightarrow>
                                  (Inr (ca_GetCert e (hello_ServerName clientHello)),
                                   emit [GetCert (hello_ServerName clientHello)] w3)))))"

text \<open>The handshakes in a trace: the connection and the configuration of each.\<close>

fun handshakes :: "event list \<Rightarrow> (conn option \<times> Config) list" where
  "handshakes [] = []"
| "handshakes (Handshake c cfg # es) = (c, cfg) # handshakes es"
| "handshakes (_ # es) = handshakes es"

section \<open>The three initialisers of the server side\<close>

text \<open>Lines 65-71.\<close>

definition newConnContext :: "env \<Rightarrow> conn option \<Rightarrow> Proxy \<Rightarrow> world \<Rightarrow> world" where
  "newConnContext e c p w =
     (case newClientConn e c w of
        (clientConn, w1) \<Rightarrow>
          w1\<lparr>ctx := \<lparr>ClientConn = Some clientConn, ServerConn = None,
                     ctx_proxy = p, pipeConn = None\<rparr>\<rparr>)"

text \<open>
  Lines 73-117.  The dial closure of the client (lines 85-103) runs later, inside
  \<^verbatim>\<open>net/http\<close>; the client records which closure it holds.
\<close>

definition initHttpServerConn :: "env \<Rightarrow> world \<Rightarrow> (fault + unit) \<times> world" where
  "initHttpServerConn e w =
     (case ServerConn (ctx w) of
        Some _ \<Rightarrow> (Inr (), w)
      | None \<Rightarrow>
          (case ClientConn (ctx w) of
             None \<Rightarrow> (Inl NilDereference, w)
           | Some cc \<Rightarrow>
               if Tls cc then (Inr (), w)
               else
                 (case newServerConn e w of
                    (serverConn, w1) \<Rightarrow>
                      (Inr (),
                       w1\<lparr>ctx := (ctx w1)\<lparr>ServerConn := Some (serverConn\<lparr>client := Some
                         \<lparr>dial = DialContext_tcp, ForceAttemptHTTP2 = False,
                          DisableCompression = True,
                          TLSClientConfig = Some
                            \<lparr>InsecureSkipVerify = SslInsecure (ctx_proxy (ctx w1)),
                             KeyLogWriter = getTlsKeyLogWriter e,
                             ServerName = [], NextProtos = [], CipherSuites = [],
                             MinVersion = 0, MaxVersion = 0\<rparr>,
                          CheckRedirect_ErrUseLastResponse = True\<rparr>\<rparr>)\<rparr>\<rparr>))))"

text \<open>
  Lines 119-140.  The result is a panic or the \<^verbatim>\<open>error\<close> returned (\<open>None\<close> for
  \<^verbatim>\<open>nil\<close>).  The new wrapper is stored behind the wrappers that exist.
\<close>

definition initServerTcpConn :: "env \<Rightarrow> world \<Rightarrow> (fault + error option) \<times> world" where
  "initServerTcpConn e w =
     (case newServerConn e w of
        (sc0, w1) \<Rightarrow>
          (let w2 = w1\<lparr>ctx := (ctx w1)\<lparr>ServerConn := Some sc0\<rparr>\<rparr>
           in case pipeConn (ctx w2) of
                None \<Rightarrow> (Inl NilDereference, w2)
              | Some pc \<Rightarrow>
                  (let sc1 = sc0\<lparr>Address := host pc\<rparr>;
                       w3 = emit [Dial (Address sc1)]
                              (w2\<lparr>ctx := (ctx w2)\<lparr>ServerConn := Some sc1\<rparr>\<rparr>)
                   in case DialContext e (Address sc1) of
                        Inl err \<Rightarrow> (Inr (Some err), w3)
                      | Inr plainConn \<Rightarrow>
                          (let cw = \<lparr>Conn = plainConn, proxy = ctx_proxy (ctx w3),
                                     connCtx = Some (), closed = False, closeErr = None\<rparr>;
                               w4 = w3\<lparr>serverWraps := serverWraps w3 @ [cw],
                                       ctx := (ctx w3)\<lparr>ServerConn := Some
                                         (sc1\<lparr>sc_Conn := Some (WrapServer (length (serverWraps w3)))\<rparr>)\<rparr>\<rparr>
                           in (Inr None,
                               emit (map ServerConnected (Addons (ctx_proxy (ctx w4)))) w4)))))"

text \<open>Lines 142-161.\<close>

definition initHttpsServerConn :: "world \<Rightarrow> (fault + unit) \<times> world" where
  "initHttpsServerConn w =
     (case ClientConn (ctx w) of
        None \<Rightarrow> (Inl NilDereference, w)
      | Some cc \<Rightarrow>
          if \<not> Tls cc then (Inr (), w)
          else
            (case ServerConn (ctx w) of
               None \<Rightarrow> (Inl NilDereference, w)
             | Some sc \<Rightarrow>
                 (Inr (),
                  w\<lparr>ctx := (ctx w)\<lparr>ServerConn := Some (sc\<lparr>client := Some
                    \<lparr>dial = DialTLSContext_rendezvous, ForceAttemptHTTP2 = False,
                     DisableCompression = True, TLSClientConfig = None,
                     CheckRedirect_ErrUseLastResponse = True\<rparr>\<rparr>)\<rparr>\<rparr>)))"

section \<open>The connection wrappers\<close>

text \<open>
  Lines 239-249: \<^verbatim>\<open>wrapListener.Accept\<close>, given what the wrapped listener
  returned.  The new wrapper has no context yet.
\<close>

definition wrapListener_Accept ::
  "Proxy \<Rightarrow> error + nat \<Rightarrow> world \<Rightarrow> (conn option \<times> error option) \<times> world" where
  "wrapListener_Accept p accepted w =
     (case accepted of
        Inl err \<Rightarrow> ((None, Some err), w)
      | Inr c \<Rightarrow>
          ((Some (WrapClient (length (clientWraps w))), None),
           w\<lparr>clientWraps := clientWraps w @
                [\<lparr>Conn = c, proxy = p, connCtx = None, closed = False, closeErr = None\<rparr>]\<rparr>))"

definition open_wrappers :: "world \<Rightarrow> nat" where
  "open_wrappers w = length (filter (\<lambda>c. \<not> closed c) (clientWraps w))
                   + length (filter (\<lambda>c. \<not> closed c) (serverWraps w))"

text \<open>
  Lines 213-231 and 260-276, and the dynamic dispatch of \<^verbatim>\<open>Close\<close> on a
  \<^verbatim>\<open>net.Conn\<close>.  The cascade calls \<^verbatim>\<open>Close\<close> on the connection of the other
  side, which is usually the other wrapper, whose cascade comes back: the three
  functions are mutually recursive.  A wrapper address beyond the store stands for a
  nil receiver.

  In the client wrapper the argument \<^verbatim>\<open>c.connCtx.ClientConn\<close> of the first
  notification, or else line 226, dereferences \<^verbatim>\<open>c.connCtx\<close>; in the server
  wrapper the notifications pass \<^verbatim>\<open>c.connCtx\<close> itself and only line 273
  dereferences it.  The value returned at the end is read from the wrapper again,
  after the cascade.
\<close>

function wrapClientConn_Close :: "env \<Rightarrow> nat \<Rightarrow> world \<Rightarrow> (fault + error option) \<times> world"
  and wrapServerConn_Close :: "env \<Rightarrow> nat \<Rightarrow> world \<Rightarrow> (fault + error option) \<times> world"
  and conn_Close :: "env \<Rightarrow> conn \<Rightarrow> world \<Rightarrow> (fault + error option) \<times> world"
where
  "wrapClientConn_Close e i w =
     (if length (clientWraps w) \<le> i then (Inl NilDereference, w)
      else if closed (clientWraps w ! i) then (Inr (closeErr (clientWraps w ! i)), w)
      else
        (let c = clientWraps w ! i;
             w1 = w\<lparr>clientWraps := (clientWraps w)[i := c\<lparr>closed := True\<rparr>]\<rparr>;
             err = raw_Close e (trace w1) (Conn c);
             w2 = emit [UnderlyingClose (WrapClient i) (Conn c)]
                    (w1\<lparr>clientWraps := (clientWraps w1)[i := c\<lparr>closed := True, closeErr := err\<rparr>]\<rparr>)
         in case connCtx c of
              None \<Rightarrow> (Inl NilDereference, w2)
            | Some _ \<Rightarrow>
                (let w3 = emit (map (ClientDisconnected (WrapClient i)) (Addons (proxy c))) w2
                 in case ServerConn (ctx w3) of
                      None \<Rightarrow> (Inr (closeErr (clientWraps w3 ! i)), w3)
                    | Some sc \<Rightarrow>
                        (case sc_Conn sc of
                           None \<Rightarrow> (Inr (closeErr (clientWraps w3 ! i)), w3)
                         | Some k \<Rightarrow>
                             (case conn_Close e k w3 of
                                (Inl f, w4) \<Rightarrow> (Inl f, w4)
                              | (Inr _, w4) \<Rightarrow> (Inr (closeErr (clientWraps w4 ! i)), w4))))))"
| "wrapServerConn_Close e j w =
     (if length (serverWraps w) \<le> j then (Inl NilDereference, w)
      else if closed (serverWraps w ! j) then (Inr (closeErr (serverWraps w ! j)), w)
      else
        (let c = serverWraps w ! j;
             w1 = w\<lparr>serverWraps := (serverWraps w)[j := c\<lparr>closed := True\<rparr>]\<rparr>;
             err = raw_Close e (trace w1) (Conn c);
             w2 = emit [UnderlyingClose (WrapServer j) (Conn c)]
                    (w1\<lparr>serverWraps := (serverWraps w1)[j := c\<lparr>closed := True, closeErr := err\<rparr>]\<rparr>);
             w3 = emit (map (ServerDisconnected (WrapServer j)) (Addons (proxy c))) w2
         in case connCtx c of
              None \<Rightarrow> (Inl NilDereference, w3)
            | Some _ \<Rightarrow>
                (case ClientConn (ctx w3) of
                   None \<Rightarrow> (Inl NilDereference, w3)
                 | Some cc \<Rightarrow>
                     (case cc_Conn cc of
                        None \<Rightarrow> (Inl NilDereference, w3)
                      | Some k \<Rightarrow>
                          (case conn_Close e k w3 of
                             (Inl f, w4) \<Rightarrow> (Inl f, w4)
                           | (Inr _, w4) \<Rightarrow> (Inr (closeErr (serverWraps w4 ! j)), w4))))))"
| "conn_Close e k w =
     (case k of
        RawConn r \<Rightarrow> (Inr (raw_Close e (trace w) r), emit [RawClose r] w)
      | WrapClient i \<Rightarrow> wrapClientConn_Close e i w
      | WrapServer j \<Rightarrow> wrapServerConn_Close e j w)"
  by pat_completeness auto
termination
proof -
  have less: "length (filter (\<lambda>c. \<not> closed c) (xs[i := y]))
                < length (filter (\<lambda>c. \<not> closed c) xs)"
    if "i < length xs" "\<not> closed (xs ! i)" "closed y"
    for xs :: "wrapConn list" and i y
    using that
  proof (induction xs arbitrary: i)
    case Nil
    then show ?case by simp
  next
    case (Cons x xs)
    then show ?case by (cases i) (auto simp: Suc_le_eq)
  qed
  show ?thesis
  proof (relation "measure (\<lambda>x. case x of
            Inl (e, i, w) \<Rightarrow> 2 * open_wrappers w
          | Inr (Inl (e, j, w)) \<Rightarrow> 2 * open_wrappers w
          | Inr (Inr (e, k, w)) \<Rightarrow> 2 * open_wrappers w + 1)", goal_cases)
    case 1
    show ?case by simp
  next
    case (2 e i w)
    then show ?case
      using less [of i "clientWraps w" "(clientWraps w ! i)\<lparr>closed := True,
              closeErr := raw_Close e (trace w) (Conn (clientWraps w ! i))\<rparr>"]
      by (simp add: open_wrappers_def emit_def)
  next
    case (3 e j w)
    then show ?case
      using less [of j "serverWraps w" "(serverWraps w ! j)\<lparr>closed := True,
              closeErr := raw_Close e (trace w) (Conn (serverWraps w ! j))\<rparr>"]
      by (simp add: open_wrappers_def emit_def)
  next
    case 4
    show ?case by simp
  next
    case 5
    show ?case by simp
  qed
qed

text \<open>A sequence of \<^verbatim>\<open>Close\<close> calls, one after the other, whatever each returns.\<close>

fun Close_seq :: "env \<Rightarrow> conn list \<Rightarrow> world \<Rightarrow> world" where
  "Close_seq e [] w = w"
| "Close_seq e (k # ks) w = Close_seq e ks (snd (conn_Close e k w))"

text \<open>
  What a wrapper's \<^verbatim>\<open>Close\<close> left in a trace: the raw connections it closed and
  the addons it notified.
\<close>

fun closes_of :: "conn \<Rightarrow> event list \<Rightarrow> nat list" where
  "closes_of x [] = []"
| "closes_of x (UnderlyingClose y r # es) = (if x = y then r # closes_of x es else closes_of x es)"
| "closes_of x (_ # es) = closes_of x es"

fun notes_of :: "conn \<Rightarrow> event list \<Rightarrow> nat list" where
  "notes_of x [] = []"
| "notes_of x (ClientDisconnected y a # es) = (if x = y then a # notes_of x es else notes_of x es)"
| "notes_of x (ServerDisconnected y a # es) = (if x = y then a # notes_of x es else notes_of x es)"
| "notes_of x (_ # es) = notes_of x es"

text \<open>
  All that a wrapper's \<^verbatim>\<open>Close\<close> left in a trace, in order: the close of its
  embedded connection and its notifications, each of its kind.
\<close>

fun events_by :: "conn \<Rightarrow> event list \<Rightarrow> event list" where
  "events_by x [] = []"
| "events_by x (UnderlyingClose y r # es) =
     (if x = y then UnderlyingClose y r # events_by x es else events_by x es)"
| "events_by x (ClientDisconnected y a # es) =
     (if x = y then ClientDisconnected y a # events_by x es else events_by x es)"
| "events_by x (ServerDisconnected y a # es) =
     (if x = y then ServerDisconnected y a # events_by x es else events_by x es)"
| "events_by x (_ # es) = events_by x es"

text \<open>
  The world after lines 219-220 of a wrapper's \<^verbatim>\<open>Close\<close> (flag set, embedded
  connection closed, its error cached) and after the loop over the addons that
  follows.  The cascade of an open wrapper starts from the latter.
\<close>

definition client_closed :: "env \<Rightarrow> nat \<Rightarrow> world \<Rightarrow> world" where
  "client_closed e i w =
     (let c = clientWraps w ! i
      in emit [UnderlyingClose (WrapClient i) (Conn c)]
           (w\<lparr>clientWraps := (clientWraps w)
                 [i := c\<lparr>closed := True, closeErr := raw_Close e (trace w) (Conn c)\<rparr>]\<rparr>))"

definition client_notified :: "env \<Rightarrow> nat \<Rightarrow> world \<Rightarrow> world" where
  "client_notified e i w =
     emit (map (ClientDisconnected (WrapClient i)) (Addons (proxy (clientWraps w ! i))))
       (client_closed e i w)"

definition server_closed :: "env \<Rightarrow> nat \<Rightarrow> world \<Rightarrow> world" where
  "server_closed e j w =
     (let c = serverWraps w ! j
      in emit [UnderlyingClose (WrapServer j) (Conn c)]
           (w\<lparr>serverWraps := (serverWraps w)
                 [j := c\<lparr>closed := True, closeErr := raw_Close e (trace w) (Conn c)\<rparr>]\<rparr>))"

definition server_notified :: "env \<Rightarrow> nat \<Rightarrow> world \<Rightarrow> world" where
  "server_notified e j w =
     emit (map (ServerDisconnected (WrapServer j)) (Addons (proxy (serverWraps w ! j))))
       (server_closed e j w)"

text \<open>The wrapper a connection value points to, and whether it is closed.\<close>

fun wrapper_at :: "world \<Rightarrow> conn \<Rightarrow> wrapConn option" where
  "wrapper_at w (RawConn r) = None"
| "wrapper_at w (WrapClient i) = (if i < length (clientWraps w) then Some (clientWraps w ! i) else None)"
| "wrapper_at w (WrapServer j) = (if j < length (serverWraps w) then Some (serverWraps w ! j) else None)"

definition is_closed :: "world \<Rightarrow> conn \<Rightarrow> bool" where
  "is_closed w x = (case wrapper_at w x of None \<Rightarrow> False | Some c \<Rightarrow> closed c)"

text \<open>
  How \<^verbatim>\<open>Close\<close> calls may change a wrapper: the connection, the proxy and the
  context stay, and a closed wrapper stays as it is.
\<close>

definition later :: "wrapConn \<Rightarrow> wrapConn \<Rightarrow> bool" where
  "later c c' = (Conn c' = Conn c \<and> proxy c' = proxy c \<and> connCtx c' = connCtx c
                 \<and> (closed c \<longrightarrow> c' = c))"

text \<open>
  What a wrapper \<open>x\<close> did in the events \<open>es\<close> that lead from \<open>w\<close> to \<open>w'\<close>:
  nothing; or it was open, is closed now, closed its embedded connection once and
  notified either no addon or each addon of its proxy once.
\<close>

definition once :: "world \<Rightarrow> world \<Rightarrow> event list \<Rightarrow> conn \<Rightarrow> bool" where
  "once w w' es x =
     ((closes_of x es = [] \<and> notes_of x es = [])
      \<or> (case wrapper_at w x of
            None \<Rightarrow> False
          | Some c \<Rightarrow> \<not> closed c \<and> is_closed w' x \<and> closes_of x es = [Conn c]
                      \<and> (notes_of x es = [] \<or> notes_of x es = Addons (proxy c))))"

definition Close_post :: "world \<Rightarrow> world \<Rightarrow> bool" where
  "Close_post w w' =
     (list_all2 later (clientWraps w) (clientWraps w')
      \<and> list_all2 later (serverWraps w) (serverWraps w')
      \<and> ctx w' = ctx w \<and> uuids w' = uuids w
      \<and> (\<exists>es. trace w' = trace w @ es \<and> (\<forall>x. once w w' es x)))"

text \<open>
  \<^verbatim>\<open>Close\<close> has been called on the connection \<open>k\<close> between \<open>w\<close> and \<open>w'\<close>, as far
  as it can be seen: a raw connection has been closed, a wrapper is closed.
\<close>

fun Close_reached :: "world \<Rightarrow> world \<Rightarrow> conn \<Rightarrow> bool" where
  "Close_reached w w' (RawConn r) = (RawClose r \<in> set (new_events w w'))"
| "Close_reached w w' k = (wrapper_at w k = None \<or> is_closed w' k)"

text \<open>
  A session as the proxy builds it: every wrapper has its context, the context has
  its client with a connection, and the connections the context names exist.  (A
  client always exists, by \<^verbatim>\<open>newConnContext\<close>; wrappers get their context when
  they are built, at lines 90-94 and 129-133, or right after \<^verbatim>\<open>Accept\<close>.)
\<close>

fun valid_conn :: "world \<Rightarrow> conn \<Rightarrow> bool" where
  "valid_conn w (RawConn r) = True"
| "valid_conn w (WrapClient i) = (i < length (clientWraps w))"
| "valid_conn w (WrapServer j) = (j < length (serverWraps w))"

definition attached :: "world \<Rightarrow> bool" where
  "attached w =
     (list_all (\<lambda>c. connCtx c = Some ()) (clientWraps w)
      \<and> list_all (\<lambda>c. connCtx c = Some ()) (serverWraps w)
      \<and> (case ClientConn (ctx w) of
            None \<Rightarrow> False
          | Some cc \<Rightarrow> (case cc_Conn cc of None \<Rightarrow> False | Some k \<Rightarrow> valid_conn w k))
      \<and> (case ServerConn (ctx w) of
            None \<Rightarrow> True
          | Some sc \<Rightarrow> (case sc_Conn sc of None \<Rightarrow> True | Some k \<Rightarrow> valid_conn w k)))"

text \<open>
  The invariant of a session in which \<^verbatim>\<open>Close\<close> calls do not overlap: an open
  wrapper (or a connection that is no wrapper) has left nothing in the trace, and a
  closed wrapper has closed its embedded connection at most once and has notified
  either no addon or each addon of its proxy once.
\<close>

definition closed_once :: "world \<Rightarrow> bool" where
  "closed_once w =
     (\<forall>x. case wrapper_at w x of
             None \<Rightarrow> closes_of x (trace w) = [] \<and> notes_of x (trace w) = []
           | Some c \<Rightarrow>
               (\<not> closed c \<longrightarrow> closes_of x (trace w) = [] \<and> notes_of x (trace w) = [])
             \<and> length (closes_of x (trace w)) \<le> 1
             \<and> (notes_of x (trace w) = [] \<or> notes_of x (trace w) = Addons (proxy c)))"

section \<open>Overlapping calls\<close>

text \<open>
  Goroutines that run \<^verbatim>\<open>Close\<close> at the same time, one statement at a time.  A
  goroutine is at one of the statements of the function: the test of the flag
  (line 215 or 262), the assignment of the flag (219, 266), the close of the embedded
  connection with the assignment of its error (220, 267), the loop over the addons
  (222, 269), the cascade (226, 273), or it has returned.  The fields are plain
  memory, read and written without synchronisation, so the steps of different
  goroutines may come in any order; a schedule names the goroutine of each step.
  The cascade is taken as one step, which leaves out some of the orders and adds
  none.
\<close>

datatype pc = At_test | At_flag | At_close | At_notify | At_cascade
            | Returned "fault + error option"

fun Close_step :: "env \<Rightarrow> conn \<Rightarrow> pc \<Rightarrow> world \<Rightarrow> pc \<times> world" where
  "Close_step e (RawConn r) At_test w =
     (Returned (Inr (raw_Close e (trace w) r)), emit [RawClose r] w)"
| "Close_step e (WrapClient i) At_test w =
     (if length (clientWraps w) \<le> i then (Returned (Inl NilDereference), w)
      else if closed (clientWraps w ! i) then (Returned (Inr (closeErr (clientWraps w ! i))), w)
      else (At_flag, w))"
| "Close_step e (WrapClient i) At_flag w =
     (At_close, w\<lparr>clientWraps := (clientWraps w)[i := (clientWraps w ! i)\<lparr>closed := True\<rparr>]\<rparr>)"
| "Close_step e (WrapClient i) At_close w =
     (let c = clientWraps w ! i
      in (At_notify,
          emit [UnderlyingClose (WrapClient i) (Conn c)]
            (w\<lparr>clientWraps := (clientWraps w)
                  [i := c\<lparr>closeErr := raw_Close e (trace w) (Conn c)\<rparr>]\<rparr>)))"
| "Close_step e (WrapClient i) At_notify w =
     (let c = clientWraps w ! i
      in case connCtx c of
           None \<Rightarrow> (Returned (Inl NilDereference), w)
         | Some _ \<Rightarrow>
             (At_cascade, emit (map (ClientDisconnected (WrapClient i)) (Addons (proxy c))) w))"
| "Close_step e (WrapClient i) At_cascade w =
     (case ServerConn (ctx w) of
        None \<Rightarrow> (Returned (Inr (closeErr (clientWraps w ! i))), w)
      | Some sc \<Rightarrow>
          (case sc_Conn sc of
             None \<Rightarrow> (Returned (Inr (closeErr (clientWraps w ! i))), w)
           | Some k \<Rightarrow>
               (case conn_Close e k w of
                  (Inl f, w4) \<Rightarrow> (Returned (Inl f), w4)
                | (Inr _, w4) \<Rightarrow> (Returned (Inr (closeErr (clientWraps w4 ! i))), w4))))"
| "Close_step e (WrapServer j) At_test w =
     (if length (serverWraps w) \<le> j then (Returned (Inl NilDereference), w)
      else if closed (serverWraps w ! j) then (Returned (Inr (closeErr (serverWraps w ! j))), w)
      else (At_flag, w))"
| "Close_step e (WrapServer j) At_flag w =
     (At_close, w\<lparr>serverWraps := (serverWraps w)[j := (serverWraps w ! j)\<lparr>closed := True\<rparr>]\<rparr>)"
| "Close_step e (WrapServer j) At_close w =
     (let c = serverWraps w ! j
      in (At_notify,
          emit [UnderlyingClose (WrapServer j) (Conn c)]
            (w\<lparr>serverWraps := (serverWraps w)
                  [j := c\<lparr>closeErr := raw_Close e (trace w) (Conn c)\<rparr>]\<rparr>)))"
| "Close_step e (WrapServer j) At_notify w =
     (At_cascade,
      emit (map (ServerDisconnected (WrapServer j)) (Addons (proxy (serverWraps w ! j)))) w)"
| "Close_step e (WrapServer j) At_cascade w =
     (case connCtx (serverWraps w ! j) of
        None \<Rightarrow> (Returned (Inl NilDereference), w)
      | Some _ \<Rightarrow>
          (case ClientConn (ctx w) of
             None \<Rightarrow> (Returned (Inl NilDereference), w)
           | Some cc \<Rightarrow>
               (case cc_Conn cc of
                  None \<Rightarrow> (Returned (Inl NilDereference), w)
                | Some k \<Rightarrow>
                    (case conn_Close e k w of
                       (Inl f, w4) \<Rightarrow> (Returned (Inl f), w4)
                     | (Inr _, w4) \<Rightarrow> (Returned (Inr (closeErr (serverWraps w4 ! j))), w4)))))"
| "Close_step e x p w = (p, w)"

text \<open>
  The goroutines are a list of pairs, the connection each closes and where it
  stands; a schedule is the list of the goroutines that step, one after the other.
\<close>

fun run_Close :: "env \<Rightarrow> nat list \<Rightarrow> (conn \<times> pc) list \<times> world \<Rightarrow> (conn \<times> pc) list \<times> world" where
  "run_Close e [] s = s"
| "run_Close e (t # ts) (gs, w) =
     (if t < length gs
      then (case Close_step e (fst (gs ! t)) (snd (gs ! t)) w of
              (p, w') \<Rightarrow> run_Close e ts (gs[t := (fst (gs ! t), p)], w'))
      else run_Close e ts (gs, w))"

section \<open>The handshake rendezvous\<close>

text \<open>
  The goroutine that runs \<^verbatim>\<open>getCertificate\<close>, one statement at a time: the
  handshake (lines 164-188), which panics on a \<^verbatim>\<open>ServerConn\<close> without
  connection, then either the two statements of the failure branch (190, 191) or
  the four of the success branch (195, 196-197, 198, 201).
\<close>

datatype cert_pc =
    At_handshake
  | At_cache_err error
  | At_close_failed error
  | At_cache_conn tls_Conn ConnectionState
  | At_cache_state ConnectionState
  | At_close_ok
  | At_GetCert
  | Cert_returned "fault + Certificate option \<times> error option"

fun getCertificate_step ::
  "env \<Rightarrow> ClientHelloInfo \<Rightarrow> cert_pc \<Rightarrow> world \<Rightarrow> cert_pc \<times> world" where
  "getCertificate_step e clientHello (Cert_returned r) w = (Cert_returned r, w)"
| "getCertificate_step e clientHello At_GetCert w =
     (Cert_returned (Inr (ca_GetCert e (hello_ServerName clientHello))),
      emit [GetCert (hello_ServerName clientHello)] w)"
| "getCertificate_step e clientHello p w =
     (case ServerConn (ctx w) of
        None \<Rightarrow> (Cert_returned (Inl NilDereference), w)
      | Some sc \<Rightarrow>
          (case p of
             At_handshake \<Rightarrow>
               (let cfg = upstream_cfg e (ctx_proxy (ctx w)) clientHello;
                    w1 = emit [Handshake (sc_Conn sc) cfg] w
                in case sc_Conn sc of
                     None \<Rightarrow> (Cert_returned (Inl NilDereference), w1)
                   | Some _ \<Rightarrow>
                       (case HandshakeContext e (sc_Conn sc) cfg of
                          Inl err \<Rightarrow> (At_cache_err err, w1)
                        | Inr st \<Rightarrow> (At_cache_conn (tls_Client (sc_Conn sc) cfg) st, w1)))
           | At_cache_err err \<Rightarrow>
               (At_close_failed err,
                w\<lparr>ctx := (ctx w)\<lparr>ServerConn := Some (sc\<lparr>tlsHandshakeErr := Some err\<rparr>)\<rparr>\<rparr>)
           | At_close_failed err \<Rightarrow>
               (case close_tlsHandshaked sc w of
                  Inl f \<Rightarrow> (Cert_returned (Inl f), w)
                | Inr w' \<Rightarrow> (Cert_returned (Inr (None, Some err)), w'))
           | At_cache_conn tc st \<Rightarrow>
               (At_cache_state st,
                w\<lparr>ctx := (ctx w)\<lparr>ServerConn := Some (sc\<lparr>tlsConn := Some tc\<rparr>)\<rparr>\<rparr>)
           | At_cache_state st \<Rightarrow>
               (At_close_ok,
                w\<lparr>ctx := (ctx w)\<lparr>ServerConn := Some (sc\<lparr>tlsState := Some st\<rparr>)\<rparr>\<rparr>)
           | At_close_ok \<Rightarrow>
               (case close_tlsHandshaked sc w of
                  Inl f \<Rightarrow> (Cert_returned (Inl f), w)
                | Inr w' \<Rightarrow> (At_GetCert, w'))
           | _ \<Rightarrow> (p, w)))"

text \<open>
  A goroutine that runs \<^verbatim>\<open>TlsState\<close> (lines 48-51): the receive of line 49,
  which does not return while the channel is open, then the read of line 50.  The
  receiver is the context's \<^verbatim>\<open>ServerConn\<close>, which no step of this section
  replaces.  In Go the close of a channel happens before a receive that returns
  because the channel is closed, so a caller past line 49 sees the writes made
  before line 191 or 198: the steps of the goroutines, taken in any order, are the
  executions of the program.
\<close>

datatype reader_pc = At_receive | At_read | Read_returned "fault + ConnectionState option"

fun TlsState_step :: "reader_pc \<Rightarrow> world \<Rightarrow> reader_pc" where
  "TlsState_step (Read_returned r) w = Read_returned r"
| "TlsState_step At_receive w =
     (case ServerConn (ctx w) of
        None \<Rightarrow> Read_returned (Inl NilDereference)
      | Some c \<Rightarrow> if tlsHandshaked c then At_read else At_receive)"
| "TlsState_step At_read w =
     (case ServerConn (ctx w) of
        None \<Rightarrow> Read_returned (Inl NilDereference)
      | Some c \<Rightarrow> Read_returned (Inr (tlsState c)))"

text \<open>
  A schedule names the goroutine of each step: \<open>0\<close> is the one in
  \<^verbatim>\<open>getCertificate\<close>, \<open>n + 1\<close> is the \<open>n\<close>-th caller of \<^verbatim>\<open>TlsState\<close>.
\<close>

fun run_rendezvous ::
  "env \<Rightarrow> ClientHelloInfo \<Rightarrow> nat list \<Rightarrow> cert_pc \<times> reader_pc list \<times> world
     \<Rightarrow> cert_pc \<times> reader_pc list \<times> world" where
  "run_rendezvous e h [] s = s"
| "run_rendezvous e h (0 # ts) (p, rs, w) =
     (case getCertificate_step e h p w of
        (p', w') \<Rightarrow> run_rendezvous e h ts (p', rs, w'))"
| "run_rendezvous e h (Suc n # ts) (p, rs, w) =
     (if n < length rs
      then run_rendezvous e h ts (p, rs[n := TlsState_step (rs ! n) w], w)
      else run_rendezvous e h ts (p, rs, w))"

text \<open>
  Where the goroutine of \<^verbatim>\<open>getCertificate\<close> stands: past the close of the
  channel (a goroutine that panicked never closed it), past the last write of
  \<open>tlsState\<close>, and whether what it carries agrees with the outcome \<open>out\<close> of the
  handshake.
\<close>

fun signalled :: "cert_pc \<Rightarrow> bool" where
  "signalled At_GetCert = True"
| "signalled (Cert_returned (Inr r)) = True"
| "signalled p = False"

fun written :: "cert_pc \<Rightarrow> bool" where
  "written At_close_ok = True"
| "written p = signalled p"

fun agrees :: "cert_pc \<Rightarrow> error + ConnectionState \<Rightarrow> bool" where
  "agrees (At_cache_err err) out = (out = Inl err)"
| "agrees (At_close_failed err) out = (out = Inl err)"
| "agrees (At_cache_conn tc st) out = (out = Inr st)"
| "agrees (At_cache_state st) out = (out = Inr st)"
| "agrees At_close_ok out = (case out of Inl _ \<Rightarrow> False | Inr _ \<Rightarrow> True)"
| "agrees At_GetCert out = (case out of Inl _ \<Rightarrow> False | Inr _ \<Rightarrow> True)"
| "agrees p out = True"

definition snapshot_of :: "error + ConnectionState \<Rightarrow> ConnectionState option" where
  "snapshot_of out = (case out of Inl _ \<Rightarrow> None | Inr st \<Rightarrow> Some st)"

text \<open>
  What a caller of \<^verbatim>\<open>TlsState\<close> may be doing, given the \<open>ServerConn\<close>: waiting
  at the receive; or, the channel being closed, about to read or back with the
  cached snapshot.
\<close>

definition reader_ok :: "ServerConn_t \<Rightarrow> reader_pc \<Rightarrow> bool" where
  "reader_ok c r =
     (r = At_receive \<or> tlsHandshaked c \<and> (r = At_read \<or> r = Read_returned (Inr (tlsState c))))"

definition rendezvous_inv ::
  "env \<Rightarrow> ClientHelloInfo \<Rightarrow> error + ConnectionState \<Rightarrow> nat
     \<Rightarrow> cert_pc \<times> reader_pc list \<times> world \<Rightarrow> bool" where
  "rendezvous_inv e h out n0 s =
     (case s of (p, rs, w) \<Rightarrow>
        (case ServerConn (ctx w) of
           None \<Rightarrow> False
         | Some c \<Rightarrow>
             tlsHandshaked c = signalled p
           \<and> tlsState c = (if written p then snapshot_of out else None)
           \<and> agrees p out
           \<and> (p \<noteq> At_handshake \<or>
                HandshakeContext e (sc_Conn c) (upstream_cfg e (ctx_proxy (ctx w)) h) = out)
           \<and> length (handshakes (trace w)) = (if p = At_handshake then n0 else Suc n0)
           \<and> list_all (reader_ok c) rs))"

section \<open>A concrete session\<close>

text \<open>
  An environment and a world to run the definitions on: a TLS client of
  \<^verbatim>\<open>a.example\<close>, both wrappers in place, two addons, and a tunnel descriptor.
  The upstream handshake succeeds for the name \<^verbatim>\<open>a.example\<close> only; the dial
  succeeds for \<^verbatim>\<open>b.example:9000\<close> only; closing a raw connection a second time
  is an error.
\<close>

fun raw_closed :: "event list \<Rightarrow> nat \<Rightarrow> bool" where
  "raw_closed [] r = False"
| "raw_closed (RawClose r' # es) r = (r' = r \<or> raw_closed es r)"
| "raw_closed (UnderlyingClose _ r' # es) r = (r' = r \<or> raw_closed es r)"
| "raw_closed (_ # es) r = raw_closed es r"

definition proxy0 :: Proxy where
  "proxy0 = \<lparr>Addons = [0, 1], SslInsecure = False\<rparr>"

definition env0 :: env where
  "env0 = \<lparr>NewV4 = (\<lambda>n. 100 + n),
           DialContext = (\<lambda>a. if a = ''b.example:9000'' then Inr 30
                               else Inl (Error ''connection refused'')),
           HandshakeContext = (\<lambda>c cfg. if ServerName cfg = ''a.example''
                               then Inr (ConnectionState 0x0304 0x1301)
                               else Inl (Error ''handshake failure'')),
           ca_GetCert = (\<lambda>n. (Some (Certificate n), None)),
           raw_Close = (\<lambda>tr r. if raw_closed tr r
                               then Some (Error ''use of closed network connection'')
                               else None),
           getTlsKeyLogWriter = None\<rparr>"

definition pending_sc :: ServerConn_t where
  "pending_sc = \<lparr>sc_Id = 1, Address = ''a.example:443'', sc_Conn = Some (WrapServer 0),
          tlsHandshaked = False, tlsHandshakeErr = None, tlsConn = None,
          tlsState = None, client = None\<rparr>"

definition tls_session :: world where
  "tls_session = \<lparr>ctx = \<lparr>ClientConn = Some \<lparr>cc_Id = 0, cc_Conn = Some (WrapClient 0), Tls = True\<rparr>,
               ServerConn = Some pending_sc, ctx_proxy = proxy0,
               pipeConn = Some \<lparr>host = ''b.example:9000''\<rparr>\<rparr>,
         clientWraps = [\<lparr>Conn = 10, proxy = proxy0, connCtx = Some (),
                         closed = False, closeErr = None\<rparr>],
         serverWraps = [\<lparr>Conn = 20, proxy = proxy0, connCtx = Some (),
                         closed = False, closeErr = None\<rparr>],
         uuids = 2, trace = []\<rparr>"

definition hello0 :: ClientHelloInfo where
  "hello0 = \<lparr>hello_ServerName = ''a.example'', hello_CipherSuites = [0x1301, 0xC02F],
             SupportedVersions = [0x0304, 0x0303]\<rparr>"

text \<open>The same greeting without the supported-versions extension.\<close>

definition hello1 :: ClientHelloInfo where
  "hello1 = hello0\<lparr>SupportedVersions := []\<rparr>"

text \<open>A greeting for a name whose upstream handshake fails.\<close>

definition hello2 :: ClientHelloInfo where
  "hello2 = hello0\<lparr>hello_ServerName := ''c.example''\<rparr>"

text \<open>
  A session that has just been accepted: plain HTTP, no \<^verbatim>\<open>ServerConn\<close> yet, no
  tunnel; and the same once the client has turned out to speak TLS.
\<close>

definition plain_session :: world where
  "plain_session = \<lparr>ctx = \<lparr>ClientConn = Some \<lparr>cc_Id = 0, cc_Conn = Some (WrapClient 0), Tls = False\<rparr>,
               ServerConn = None, ctx_proxy = proxy0, pipeConn = None\<rparr>,
         clientWraps = [\<lparr>Conn = 10, proxy = proxy0, connCtx = Some (),
                         closed = False, closeErr = None\<rparr>],
         serverWraps = [], uuids = 1, trace = []\<rparr>"

definition tls_no_server :: world where
  "tls_no_server = plain_session\<lparr>ctx := (ctx plain_session)\<lparr>ClientConn := Some \<lparr>cc_Id = 0, cc_Conn = Some (WrapClient 0), Tls = True\<rparr>\<rparr>\<rparr>"

text \<open>A tunnel session whose target refuses the connection.\<close>

definition tunnel_refused :: world where
  "tunnel_refused = plain_session\<lparr>ctx := (ctx plain_session)\<lparr>pipeConn := Some \<lparr>host = ''d.example:9000''\<rparr>\<rparr>\<rparr>"


section \<open>Proofs: the upstream configuration\<close>

lemma Min_insert_min: "finite S \<Longrightarrow> Min (insert (min a b) S) = Min (insert a (insert b S))"
  by (cases "S = {}") (simp_all add: min.assoc)

lemma Max_insert_max: "finite S \<Longrightarrow> Max (insert (max a b) S) = Max (insert a (insert b S))"
  by (cases "S = {}") (simp_all add: max.assoc)

lemma version_loop_Min_Max:
  "version_loop vs mn mx = (Min (insert mn (set vs)), Max (insert mx (set vs)))"
proof (induction vs arbitrary: mn mx)
  case Nil
  show ?case by simp
next
  case (Cons v vs)
  have mn: "(if v < mn then v else mn) = min mn v" by (auto simp: min_def)
  have mx: "(if mx < v then v else mx) = max mx v" by (auto simp: max_def)
  show ?case
    by (simp only: version_loop.simps Cons.IH mn mx list.set)
       (simp add: Min_insert_min Max_insert_max del: Min_insert Max_insert)
qed

lemma upstream_cfg_versions:
  assumes "SupportedVersions h \<noteq> []"
  shows "MinVersion (upstream_cfg e p h) = Min (set (SupportedVersions h))"
    and "MaxVersion (upstream_cfg e p h) = Max (set (SupportedVersions h))"
  using assms
  by (cases "SupportedVersions h"; simp add: upstream_cfg_def version_loop_Min_Max insert_absorb del: version_loop.simps)+

lemma upstream_cfg_fields:
  "ServerName (upstream_cfg e p h) = hello_ServerName h"
  "CipherSuites (upstream_cfg e p h) = hello_CipherSuites h"
  "NextProtos (upstream_cfg e p h) = [''http/1.1'']"
  "InsecureSkipVerify (upstream_cfg e p h) = SslInsecure p"
  "KeyLogWriter (upstream_cfg e p h) = getTlsKeyLogWriter e"
  by (simp_all add: upstream_cfg_def Let_def split: list.splits prod.splits)

lemma upstream_cfg_no_versions:
  "SupportedVersions h = [] \<Longrightarrow> MinVersion (upstream_cfg e p h) = 0 \<and> MaxVersion (upstream_cfg e p h) = 0"
  by (simp add: upstream_cfg_def)

text \<open>A \<open>ServerConn\<close> is born with its signal pending and nothing cached.\<close>

lemma newServerConn_pending:
  "\<not> tlsHandshaked (fst (newServerConn e w)) \<and> tlsState (fst (newServerConn e w)) = None
   \<and> tlsHandshakeErr (fst (newServerConn e w)) = None \<and> tlsConn (fst (newServerConn e w)) = None"
  by (simp add: newServerConn_def)

text \<open>
  Without a connection in the \<open>ServerConn\<close> the handshake panics: nothing is
  cached, the signal does not fire and the certificate authority is not called.
\<close>

lemma getCertificate_without_connection:
  assumes "ServerConn (ctx w) = Some sc" and "sc_Conn sc = None"
  shows "getCertificate e h w
           = (Inl NilDereference,
              emit [Handshake None (upstream_cfg e (ctx_proxy (ctx w)) h)] w)"
  using assms by (simp add: getCertificate_def Let_def)

text \<open>The signal fires once: a second close of the channel panics.\<close>

lemma getCertificate_signal_fired:
  assumes "ServerConn (ctx w) = Some sc" and "sc_Conn sc = Some k" and "tlsHandshaked sc"
  shows "fst (getCertificate e h w) = Inl CloseOfClosedChannel"
  using assms
  by (simp add: getCertificate_def Let_def close_tlsHandshaked_def split: sum.splits)

lemma new_events_emit: "new_events w (emit es w) = es"
  by (simp add: new_events_def emit_def)

lemma getCertificate_handshakes:
  assumes "ServerConn (ctx w) = Some sc"
  shows "handshakes (new_events w (snd (getCertificate e h w)))
           = [(sc_Conn sc, upstream_cfg e (ctx_proxy (ctx w)) h)]"
  using assms
  by (cases "sc_Conn sc")
     (simp_all add: getCertificate_def Let_def close_tlsHandshaked_def new_events_def emit_def
                split: sum.splits)

lemma getCertificate_failure:
  assumes "ServerConn (ctx w) = Some sc" and "sc_Conn sc = Some k" and "\<not> tlsHandshaked sc"
    and "HandshakeContext e (sc_Conn sc) (upstream_cfg e (ctx_proxy (ctx w)) h) = Inl err"
  shows "getCertificate e h w =
     (Inr (None, Some err),
      w\<lparr>ctx := (ctx w)\<lparr>ServerConn := Some (sc\<lparr>tlsHandshakeErr := Some err, tlsHandshaked := True\<rparr>)\<rparr>,
        trace := trace w @ [Handshake (sc_Conn sc) (upstream_cfg e (ctx_proxy (ctx w)) h), CloseSignal]\<rparr>)"
  using assms
  by (simp add: getCertificate_def Let_def close_tlsHandshaked_def emit_def)

lemma getCertificate_success:
  assumes "ServerConn (ctx w) = Some sc" and "sc_Conn sc = Some k" and "\<not> tlsHandshaked sc"
    and "HandshakeContext e (sc_Conn sc) (upstream_cfg e (ctx_proxy (ctx w)) h) = Inr st"
  shows "getCertificate e h w =
     (Inr (ca_GetCert e (hello_ServerName h)),
      w\<lparr>ctx := (ctx w)\<lparr>ServerConn := Some (sc\<lparr>tlsConn := Some (tls_Client (sc_Conn sc) (upstream_cfg e (ctx_proxy (ctx w)) h)),
              tlsState := Some st, tlsHandshaked := True\<rparr>)\<rparr>,
        trace := trace w @ [Handshake (sc_Conn sc) (upstream_cfg e (ctx_proxy (ctx w)) h), CloseSignal,
                            GetCert (hello_ServerName h)]\<rparr>)"
  using assms
  by (simp add: getCertificate_def Let_def close_tlsHandshaked_def emit_def)

text \<open>
  C1.  When the client's greeting carries a non-empty supported-versions list, the
  configuration that \<open>getCertificate\<close> hands to the one upstream handshake has
  \<open>MinVersion\<close> the least and \<open>MaxVersion\<close> the greatest version of the list, in
  whatever order the list is, and carries the client's cipher suites and server name
  unchanged.
\<close>

theorem getCertificate_mirrors_greeting:
  assumes "SupportedVersions h \<noteq> []" and "ServerConn (ctx w) = Some sc"
  shows "\<exists>cfg. handshakes (new_events w (snd (getCertificate e h w))) = [(sc_Conn sc, cfg)]
           \<and> MinVersion cfg = Min (set (SupportedVersions h))
           \<and> MaxVersion cfg = Max (set (SupportedVersions h))
           \<and> CipherSuites cfg = hello_CipherSuites h
           \<and> ServerName cfg = hello_ServerName h"
  using assms
  by (simp add: getCertificate_handshakes upstream_cfg_versions upstream_cfg_fields)

theorem getCertificate_mirrors_greeting_witness:
  "SupportedVersions hello0 = [0x0304, 0x0303] \<and> ServerConn (ctx tls_session) = Some pending_sc
   \<and> (\<exists>cfg. handshakes (new_events tls_session (snd (getCertificate env0 hello0 tls_session))) = [(Some (WrapServer 0), cfg)]
        \<and> MinVersion cfg = 0x0303 \<and> MaxVersion cfg = 0x0304
        \<and> CipherSuites cfg = [0x1301, 0xC02F] \<and> ServerName cfg = ''a.example'')"
proof -
  have v: "SupportedVersions hello0 = [0x0304, 0x0303]" by (simp add: hello0_def)
  have s: "ServerConn (ctx tls_session) = Some pending_sc" by (simp add: tls_session_def)
  have n: "SupportedVersions hello0 \<noteq> []" by (simp add: v)
  show ?thesis
    using getCertificate_mirrors_greeting [OF n s, of env0] v s
    by (simp add: hello0_def pending_sc_def)
qed

text \<open>
  C10.  When the supported-versions list of the greeting is empty, the
  configuration handed to the upstream handshake has \<open>MinVersion\<close> and
  \<open>MaxVersion\<close> zero: no range is derived.
\<close>

theorem getCertificate_no_versions:
  assumes "SupportedVersions h = []" and "ServerConn (ctx w) = Some sc"
  shows "\<exists>cfg. handshakes (new_events w (snd (getCertificate e h w))) = [(sc_Conn sc, cfg)]
           \<and> MinVersion cfg = 0 \<and> MaxVersion cfg = 0"
  using assms
  by (simp add: getCertificate_handshakes upstream_cfg_no_versions)

theorem getCertificate_no_versions_witness:
  "SupportedVersions hello1 = [] \<and> ServerConn (ctx tls_session) = Some pending_sc
   \<and> (\<exists>cfg. handshakes (new_events tls_session (snd (getCertificate env0 hello1 tls_session))) = [(Some (WrapServer 0), cfg)]
        \<and> MinVersion cfg = 0 \<and> MaxVersion cfg = 0)"
proof -
  have v: "SupportedVersions hello1 = []" by (simp add: hello1_def)
  have s: "ServerConn (ctx tls_session) = Some pending_sc" by (simp add: tls_session_def)
  show ?thesis
    using getCertificate_no_versions [OF v s, of env0] v s
    by (simp add: pending_sc_def)
qed

text \<open>
  C2.  When the upstream handshake fails (on a \<open>ServerConn\<close> that has its
  connection and whose signal is still pending), \<open>getCertificate\<close> returns the error and no certificate, the
  \<open>ServerConn\<close> holds the error and its signal is fired, and the call has
  performed the handshake and one firing of the signal and nothing else: the
  certificate authority is not called.
\<close>

theorem getCertificate_handshake_failure:
  assumes "ServerConn (ctx w) = Some sc" and "sc_Conn sc = Some k" and "\<not> tlsHandshaked sc"
    and "HandshakeContext e (sc_Conn sc) (upstream_cfg e (ctx_proxy (ctx w)) h) = Inl err"
  shows "fst (getCertificate e h w) = Inr (None, Some err)
       \<and> ServerConn (ctx (snd (getCertificate e h w)))
           = Some (sc\<lparr>tlsHandshakeErr := Some err, tlsHandshaked := True\<rparr>)
       \<and> new_events w (snd (getCertificate e h w))
           = [Handshake (sc_Conn sc) (upstream_cfg e (ctx_proxy (ctx w)) h), CloseSignal]"
  by (simp add: getCertificate_failure [OF assms] new_events_def)

theorem getCertificate_handshake_failure_witness:
  "ServerConn (ctx tls_session) = Some pending_sc \<and> sc_Conn pending_sc = Some (WrapServer 0)
   \<and> \<not> tlsHandshaked pending_sc
   \<and> HandshakeContext env0 (sc_Conn pending_sc) (upstream_cfg env0 (ctx_proxy (ctx tls_session)) hello2)
       = Inl (Error ''handshake failure'')
   \<and> fst (getCertificate env0 hello2 tls_session) = Inr (None, Some (Error ''handshake failure''))
   \<and> ServerConn (ctx (snd (getCertificate env0 hello2 tls_session)))
       = Some (pending_sc\<lparr>tlsHandshakeErr := Some (Error ''handshake failure''), tlsHandshaked := True\<rparr>)
   \<and> new_events tls_session (snd (getCertificate env0 hello2 tls_session))
       = [Handshake (sc_Conn pending_sc) (upstream_cfg env0 (ctx_proxy (ctx tls_session)) hello2), CloseSignal]"
proof -
  have s: "ServerConn (ctx tls_session) = Some pending_sc" by (simp add: tls_session_def)
  have c: "sc_Conn pending_sc = Some (WrapServer 0)" by (simp add: pending_sc_def)
  have p: "\<not> tlsHandshaked pending_sc" by (simp add: pending_sc_def)
  have f: "HandshakeContext env0 (sc_Conn pending_sc) (upstream_cfg env0 (ctx_proxy (ctx tls_session)) hello2)
             = Inl (Error ''handshake failure'')"
    by (simp add: env0_def upstream_cfg_fields hello2_def hello0_def)
  show ?thesis
    using getCertificate_handshake_failure [OF s c p f] s c p f by simp
qed

text \<open>
  C3.  When the upstream handshake succeeds (on a \<open>ServerConn\<close> that has its
  connection and whose signal is still pending), the \<open>ServerConn\<close> holds the TLS connection and the snapshot of
  its state and its signal is fired; the call has performed, in this order, the
  handshake, one firing of the signal and one request to the certificate authority
  for the client's server name; and it returns what the authority returned.
\<close>

theorem getCertificate_handshake_success:
  assumes "ServerConn (ctx w) = Some sc" and "sc_Conn sc = Some k" and "\<not> tlsHandshaked sc"
    and "HandshakeContext e (sc_Conn sc) (upstream_cfg e (ctx_proxy (ctx w)) h) = Inr st"
  shows "fst (getCertificate e h w) = Inr (ca_GetCert e (hello_ServerName h))
       \<and> ServerConn (ctx (snd (getCertificate e h w)))
           = Some (sc\<lparr>tlsConn := Some (tls_Client (sc_Conn sc) (upstream_cfg e (ctx_proxy (ctx w)) h)),
                      tlsState := Some st, tlsHandshaked := True\<rparr>)
       \<and> new_events w (snd (getCertificate e h w))
           = [Handshake (sc_Conn sc) (upstream_cfg e (ctx_proxy (ctx w)) h), CloseSignal,
              GetCert (hello_ServerName h)]"
  by (simp add: getCertificate_success [OF assms] new_events_def)

theorem getCertificate_handshake_success_witness:
  "ServerConn (ctx tls_session) = Some pending_sc \<and> sc_Conn pending_sc = Some (WrapServer 0)
   \<and> \<not> tlsHandshaked pending_sc
   \<and> HandshakeContext env0 (sc_Conn pending_sc) (upstream_cfg env0 (ctx_proxy (ctx tls_session)) hello0)
       = Inr (ConnectionState 0x0304 0x1301)
   \<and> fst (getCertificate env0 hello0 tls_session) = Inr (Some (Certificate ''a.example''), None)
   \<and> ServerConn (ctx (snd (getCertificate env0 hello0 tls_session)))
       = Some (pending_sc\<lparr>tlsConn := Some (tls_Client (sc_Conn pending_sc) (upstream_cfg env0 (ctx_proxy (ctx tls_session)) hello0)),
                   tlsState := Some (ConnectionState 0x0304 0x1301), tlsHandshaked := True\<rparr>)
   \<and> new_events tls_session (snd (getCertificate env0 hello0 tls_session))
       = [Handshake (sc_Conn pending_sc) (upstream_cfg env0 (ctx_proxy (ctx tls_session)) hello0), CloseSignal,
          GetCert ''a.example'']"
proof -
  have s: "ServerConn (ctx tls_session) = Some pending_sc" by (simp add: tls_session_def)
  have c: "sc_Conn pending_sc = Some (WrapServer 0)" by (simp add: pending_sc_def)
  have p: "\<not> tlsHandshaked pending_sc" by (simp add: pending_sc_def)
  have f: "HandshakeContext env0 (sc_Conn pending_sc) (upstream_cfg env0 (ctx_proxy (ctx tls_session)) hello0)
             = Inr (ConnectionState 0x0304 0x1301)"
    by (simp add: env0_def upstream_cfg_fields hello0_def)
  have g: "ca_GetCert env0 (hello_ServerName hello0) = (Some (Certificate ''a.example''), None)"
    by (simp add: env0_def hello0_def)
  have n: "hello_ServerName hello0 = ''a.example''" by (simp add: hello0_def)
  show ?thesis
    using getCertificate_handshake_success [OF s c p f] s c p f g n by simp
qed


section \<open>Proofs: the initialisers\<close>

text \<open>
  C5.  In a tunnel session, when the dial fails \<open>initServerTcpConn\<close> returns
  the dial error, has performed the dial and no \<open>ServerConnected\<close> notification,
  and leaves a \<open>ServerConn\<close> that has the tunnel's address but no connection; when
  the dial succeeds it returns no error, the context holds a new \<open>ServerConn\<close>
  whose address is the tunnel descriptor's host and whose connection is a new
  wrapper of the dialled connection, and every addon has been notified of
  \<open>ServerConnected\<close>, once each, in registration order.
\<close>

theorem initServerTcpConn_outcomes:
  assumes "pipeConn (ctx w) = Some pc"
  shows "(DialContext e (host pc) = Inl err \<longrightarrow>
            fst (initServerTcpConn e w) = Inr (Some err)
          \<and> new_events w (snd (initServerTcpConn e w)) = [Dial (host pc)]
          \<and> ServerConn (ctx (snd (initServerTcpConn e w)))
              = Some ((fst (newServerConn e w))\<lparr>Address := host pc\<rparr>)
          \<and> serverWraps (snd (initServerTcpConn e w)) = serverWraps w)
       \<and> (DialContext e (host pc) = Inr c \<longrightarrow>
            fst (initServerTcpConn e w) = Inr None
          \<and> new_events w (snd (initServerTcpConn e w))
              = Dial (host pc) # map ServerConnected (Addons (ctx_proxy (ctx w)))
          \<and> ServerConn (ctx (snd (initServerTcpConn e w)))
              = Some ((fst (newServerConn e w))\<lparr>Address := host pc,
                        sc_Conn := Some (WrapServer (length (serverWraps w)))\<rparr>)
          \<and> serverWraps (snd (initServerTcpConn e w))
              = serverWraps w @ [\<lparr>Conn = c, proxy = ctx_proxy (ctx w), connCtx = Some (),
                                  closed = False, closeErr = None\<rparr>])"
  using assms
  by (simp add: initServerTcpConn_def newServerConn_def Let_def emit_def new_events_def)

theorem initServerTcpConn_outcomes_witness:
  "pipeConn (ctx tunnel_refused) = Some \<lparr>host = ''d.example:9000''\<rparr>
   \<and> DialContext env0 ''d.example:9000'' = Inl (Error ''connection refused'')
   \<and> fst (initServerTcpConn env0 tunnel_refused) = Inr (Some (Error ''connection refused''))
   \<and> new_events tunnel_refused (snd (initServerTcpConn env0 tunnel_refused)) = [Dial ''d.example:9000'']
   \<and> pipeConn (ctx tls_session) = Some \<lparr>host = ''b.example:9000''\<rparr>
   \<and> DialContext env0 ''b.example:9000'' = Inr 30
   \<and> fst (initServerTcpConn env0 tls_session) = Inr None
   \<and> new_events tls_session (snd (initServerTcpConn env0 tls_session))
       = [Dial ''b.example:9000'', ServerConnected 0, ServerConnected 1]
   \<and> ServerConn (ctx (snd (initServerTcpConn env0 tls_session)))
       = Some \<lparr>sc_Id = 102, Address = ''b.example:9000'', sc_Conn = Some (WrapServer 1),
               tlsHandshaked = False, tlsHandshakeErr = None, tlsConn = None,
               tlsState = None, client = None\<rparr>"
proof -
  have p3: "pipeConn (ctx tunnel_refused) = Some \<lparr>host = ''d.example:9000''\<rparr>"
    by (simp add: tunnel_refused_def plain_session_def)
  have d3: "DialContext env0 ''d.example:9000'' = Inl (Error ''connection refused'')"
    by (simp add: env0_def)
  have p0: "pipeConn (ctx tls_session) = Some \<lparr>host = ''b.example:9000''\<rparr>"
    by (simp add: tls_session_def)
  have d0: "DialContext env0 ''b.example:9000'' = Inr 30"
    by (simp add: env0_def)
  have n0: "fst (newServerConn env0 tls_session) = \<lparr>sc_Id = 102, Address = [], sc_Conn = None,
               tlsHandshaked = False, tlsHandshakeErr = None, tlsConn = None,
               tlsState = None, client = None\<rparr>"
    by (simp add: newServerConn_def env0_def tls_session_def)
  have a0: "Addons (ctx_proxy (ctx tls_session)) = [0, 1]" "length (serverWraps tls_session) = 1"
    by (simp_all add: tls_session_def proxy0_def)
  show ?thesis
    using initServerTcpConn_outcomes [OF p3, where e = env0 and err = "Error ''connection refused''"]
          initServerTcpConn_outcomes [OF p0, where e = env0 and c = 30] p3 d3 p0 d0
    by (simp add: n0 a0)
qed

text \<open>
  C6.  \<open>initHttpServerConn\<close> changes nothing when the context has a
  \<open>ServerConn\<close>, and nothing when the client is marked as TLS; otherwise (no
  \<open>ServerConn\<close>, a plain client) it installs a new \<open>ServerConn\<close> with the
  plain dispatch client, and a second call changes nothing any more.
\<close>

theorem initHttpServerConn_idempotent:
  "(ServerConn (ctx w) \<noteq> None \<longrightarrow> initHttpServerConn e w = (Inr (), w))
 \<and> (ClientConn (ctx w) = Some cc \<and> Tls cc \<longrightarrow> initHttpServerConn e w = (Inr (), w))
 \<and> (ServerConn (ctx w) = None \<and> ClientConn (ctx w) = Some cc \<and> \<not> Tls cc \<longrightarrow>
      fst (initHttpServerConn e w) = Inr ()
    \<and> ServerConn (ctx (snd (initHttpServerConn e w)))
         = Some ((fst (newServerConn e w))\<lparr>client := Some
             \<lparr>dial = DialContext_tcp, ForceAttemptHTTP2 = False, DisableCompression = True,
              TLSClientConfig = Some
                \<lparr>InsecureSkipVerify = SslInsecure (ctx_proxy (ctx w)),
                 KeyLogWriter = getTlsKeyLogWriter e,
                 ServerName = [], NextProtos = [], CipherSuites = [],
                 MinVersion = 0, MaxVersion = 0\<rparr>,
              CheckRedirect_ErrUseLastResponse = True\<rparr>\<rparr>)
    \<and> initHttpServerConn e (snd (initHttpServerConn e w))
         = (Inr (), snd (initHttpServerConn e w)))"
  by (auto simp: initHttpServerConn_def newServerConn_def split: option.splits)

theorem initHttpServerConn_idempotent_witness:
  "ServerConn (ctx tls_session) \<noteq> None \<and> initHttpServerConn env0 tls_session = (Inr (), tls_session)
 \<and> ClientConn (ctx tls_no_server) = Some \<lparr>cc_Id = 0, cc_Conn = Some (WrapClient 0), Tls = True\<rparr>
 \<and> initHttpServerConn env0 tls_no_server = (Inr (), tls_no_server)
 \<and> ServerConn (ctx plain_session) = None
 \<and> ClientConn (ctx plain_session) = Some \<lparr>cc_Id = 0, cc_Conn = Some (WrapClient 0), Tls = False\<rparr>
 \<and> fst (initHttpServerConn env0 plain_session) = Inr ()
 \<and> ServerConn (ctx (snd (initHttpServerConn env0 plain_session)))
      = Some \<lparr>sc_Id = 101, Address = [], sc_Conn = None, tlsHandshaked = False,
              tlsHandshakeErr = None, tlsConn = None, tlsState = None,
              client = Some
                \<lparr>dial = DialContext_tcp, ForceAttemptHTTP2 = False, DisableCompression = True,
                 TLSClientConfig = Some
                   \<lparr>InsecureSkipVerify = False, KeyLogWriter = None,
                    ServerName = [], NextProtos = [], CipherSuites = [],
                    MinVersion = 0, MaxVersion = 0\<rparr>,
                 CheckRedirect_ErrUseLastResponse = True\<rparr>\<rparr>
 \<and> initHttpServerConn env0 (snd (initHttpServerConn env0 plain_session))
      = (Inr (), snd (initHttpServerConn env0 plain_session))"
proof -
  have s0: "ServerConn (ctx tls_session) \<noteq> None" by (simp add: tls_session_def)
  have c2: "ClientConn (ctx tls_no_server) = Some \<lparr>cc_Id = 0, cc_Conn = Some (WrapClient 0), Tls = True\<rparr>"
    by (simp add: tls_no_server_def)
  have s1: "ServerConn (ctx plain_session) = None" by (simp add: plain_session_def)
  have c1: "ClientConn (ctx plain_session) = Some \<lparr>cc_Id = 0, cc_Conn = Some (WrapClient 0), Tls = False\<rparr>"
    by (simp add: plain_session_def)
  have n1: "fst (newServerConn env0 plain_session) = \<lparr>sc_Id = 101, Address = [], sc_Conn = None,
               tlsHandshaked = False, tlsHandshakeErr = None, tlsConn = None,
               tlsState = None, client = None\<rparr>"
      "SslInsecure (ctx_proxy (ctx plain_session)) = False" "getTlsKeyLogWriter env0 = None"
    by (simp_all add: newServerConn_def env0_def plain_session_def proxy0_def)
  show ?thesis
    using initHttpServerConn_idempotent [where w = tls_session and e = env0]
          initHttpServerConn_idempotent [where w = tls_no_server and e = env0
            and cc = "\<lparr>cc_Id = 0, cc_Conn = Some (WrapClient 0), Tls = True\<rparr>"]
          initHttpServerConn_idempotent [where w = plain_session and e = env0
            and cc = "\<lparr>cc_Id = 0, cc_Conn = Some (WrapClient 0), Tls = False\<rparr>"]
          s0 c2 s1 c1 n1
    by simp
qed

text \<open>
  C9.  \<open>initHttpsServerConn\<close> changes nothing when the client is not marked as
  TLS.  When the client is marked as TLS it writes the dispatch client into the
  context's \<open>ServerConn\<close> without a check: with a \<open>ServerConn\<close> it installs
  the client whose TLS dial waits for the rendezvous, and without one the call
  panics on the nil pointer.
\<close>

theorem initHttpsServerConn_needs_ServerConn:
  "ClientConn (ctx w) = Some cc \<longrightarrow>
     (\<not> Tls cc \<longrightarrow> initHttpsServerConn w = (Inr (), w))
   \<and> (Tls cc \<and> ServerConn (ctx w) = None \<longrightarrow> initHttpsServerConn w = (Inl NilDereference, w))
   \<and> (Tls cc \<and> ServerConn (ctx w) = Some sc \<longrightarrow>
        fst (initHttpsServerConn w) = Inr ()
      \<and> ServerConn (ctx (snd (initHttpsServerConn w)))
          = Some (sc\<lparr>client := Some
              \<lparr>dial = DialTLSContext_rendezvous, ForceAttemptHTTP2 = False,
               DisableCompression = True, TLSClientConfig = None,
               CheckRedirect_ErrUseLastResponse = True\<rparr>\<rparr>))"
  by (simp add: initHttpsServerConn_def)

theorem initHttpsServerConn_needs_ServerConn_witness:
  "ClientConn (ctx plain_session) = Some \<lparr>cc_Id = 0, cc_Conn = Some (WrapClient 0), Tls = False\<rparr>
 \<and> initHttpsServerConn plain_session = (Inr (), plain_session)
 \<and> ClientConn (ctx tls_no_server) = Some \<lparr>cc_Id = 0, cc_Conn = Some (WrapClient 0), Tls = True\<rparr>
 \<and> ServerConn (ctx tls_no_server) = None
 \<and> initHttpsServerConn tls_no_server = (Inl NilDereference, tls_no_server)
 \<and> ClientConn (ctx tls_session) = Some \<lparr>cc_Id = 0, cc_Conn = Some (WrapClient 0), Tls = True\<rparr>
 \<and> ServerConn (ctx tls_session) = Some pending_sc
 \<and> fst (initHttpsServerConn tls_session) = Inr ()
 \<and> ServerConn (ctx (snd (initHttpsServerConn tls_session)))
     = Some (pending_sc\<lparr>client := Some
         \<lparr>dial = DialTLSContext_rendezvous, ForceAttemptHTTP2 = False,
          DisableCompression = True, TLSClientConfig = None,
          CheckRedirect_ErrUseLastResponse = True\<rparr>\<rparr>)"
proof -
  have c1: "ClientConn (ctx plain_session) = Some \<lparr>cc_Id = 0, cc_Conn = Some (WrapClient 0), Tls = False\<rparr>"
    by (simp add: plain_session_def)
  have c2: "ClientConn (ctx tls_no_server) = Some \<lparr>cc_Id = 0, cc_Conn = Some (WrapClient 0), Tls = True\<rparr>"
    by (simp add: tls_no_server_def)
  have s2: "ServerConn (ctx tls_no_server) = None" by (simp add: tls_no_server_def plain_session_def)
  have c0: "ClientConn (ctx tls_session) = Some \<lparr>cc_Id = 0, cc_Conn = Some (WrapClient 0), Tls = True\<rparr>"
    by (simp add: tls_session_def)
  have s0: "ServerConn (ctx tls_session) = Some pending_sc" by (simp add: tls_session_def)
  show ?thesis
    using initHttpsServerConn_needs_ServerConn [where w = plain_session and cc = "\<lparr>cc_Id = 0, cc_Conn = Some (WrapClient 0), Tls = False\<rparr>"]
          initHttpsServerConn_needs_ServerConn [where w = tls_no_server and cc = "\<lparr>cc_Id = 0, cc_Conn = Some (WrapClient 0), Tls = True\<rparr>"]
          initHttpsServerConn_needs_ServerConn [where w = tls_session and cc = "\<lparr>cc_Id = 0, cc_Conn = Some (WrapClient 0), Tls = True\<rparr>" and sc = pending_sc]
          c1 c2 s2 c0 s0
    by simp
qed


section \<open>Proofs: the connection wrappers\<close>

lemma closes_of_append: "closes_of x (es @ fs) = closes_of x es @ closes_of x fs"
  by (induction x es rule: closes_of.induct) simp_all

lemma notes_of_append: "notes_of x (es @ fs) = notes_of x es @ notes_of x fs"
  by (induction x es rule: notes_of.induct) simp_all

lemma closes_of_ClientDisconnected: "closes_of x (map (ClientDisconnected y) as) = []"
  by (induction as) simp_all

lemma closes_of_ServerDisconnected: "closes_of x (map (ServerDisconnected y) as) = []"
  by (induction as) simp_all

lemma notes_of_ClientDisconnected:
  "notes_of x (map (ClientDisconnected y) as) = (if x = y then as else [])"
  by (induction as) auto

lemma notes_of_ServerDisconnected:
  "notes_of x (map (ServerDisconnected y) as) = (if x = y then as else [])"
  by (induction as) auto

lemmas trace_simps = closes_of_append notes_of_append closes_of_ClientDisconnected
  closes_of_ServerDisconnected notes_of_ClientDisconnected notes_of_ServerDisconnected

lemma later_refl: "later c c"
  by (simp add: later_def)

lemma later_trans: "later a b \<Longrightarrow> later b c \<Longrightarrow> later a c"
  by (auto simp: later_def)

lemma all2_later_refl: "list_all2 later xs xs"
  by (simp add: list_all2_refl later_refl)

lemma all2_later_trans:
  "list_all2 later xs ys \<Longrightarrow> list_all2 later ys zs \<Longrightarrow> list_all2 later xs zs"
  by (erule (1) list_all2_trans [rotated]) (rule later_trans)

lemma all2_later_update:
  "i < length xs \<Longrightarrow> \<not> closed (xs ! i) \<Longrightarrow>
   list_all2 later xs (xs[i := (xs ! i)\<lparr>closed := b, closeErr := r\<rparr>])"
  by (auto simp: list_all2_conv_all_nth nth_list_update later_def)

lemma Close_post_refl: "Close_post w w"
  by (simp add: Close_post_def all2_later_refl once_def)

lemma later_nth:
  "list_all2 later xs ys \<Longrightarrow> i < length xs \<Longrightarrow> later (xs ! i) (ys ! i)"
  by (simp add: list_all2_conv_all_nth)

lemma wrapper_at_later:
  assumes "list_all2 later (clientWraps w) (clientWraps w')"
    and "list_all2 later (serverWraps w) (serverWraps w')"
  shows "(wrapper_at w x = None \<longrightarrow> wrapper_at w' x = None)
       \<and> (wrapper_at w x = Some c \<longrightarrow> (\<exists>c'. wrapper_at w' x = Some c' \<and> later c c'))"
proof (cases x)
  case (RawConn r)
  then show ?thesis by simp
next
  case (WrapClient i)
  then show ?thesis
    using assms(1) list_all2_lengthD [OF assms(1)] by (auto simp: later_nth)
next
  case (WrapServer j)
  then show ?thesis
    using assms(2) list_all2_lengthD [OF assms(2)] by (auto simp: later_nth)
qed

lemma once_trans:
  assumes l1: "list_all2 later (clientWraps w) (clientWraps wa)"
              "list_all2 later (serverWraps w) (serverWraps wa)"
    and l2: "list_all2 later (clientWraps wa) (clientWraps wb)"
            "list_all2 later (serverWraps wa) (serverWraps wb)"
    and o1: "once w wa es x" and o2: "once wa wb fs x"
  shows "once w wb (es @ fs) x"
proof (cases "wrapper_at w x")
  case None
  then have "wrapper_at wa x = None" using wrapper_at_later [OF l1] by blast
  with None o1 o2 show ?thesis by (simp add: once_def trace_simps)
next
  case (Some c)
  then obtain c1 where c1: "wrapper_at wa x = Some c1" "later c c1"
    using wrapper_at_later [OF l1] by blast
  then obtain c2 where c2: "wrapper_at wb x = Some c2" "later c1 c2"
    using wrapper_at_later [OF l2] by blast
  show ?thesis
  proof (cases "closes_of x es = [] \<and> notes_of x es = []")
    case True
    with o2 Some c1 c2 show ?thesis
      by (auto simp: once_def trace_simps later_def)
  next
    case False
    with o1 Some have a: "\<not> closed c" "is_closed wa x" "closes_of x es = [Conn c]"
        "notes_of x es = [] \<or> notes_of x es = Addons (proxy c)"
      by (auto simp: once_def)
    from a(2) c1 have "closed c1" by (simp add: is_closed_def)
    with o2 c1 c2 have b: "closes_of x fs = []" "notes_of x fs = []" "closed c2"
      by (auto simp: once_def later_def)
    with a Some c2 show ?thesis
      by (auto simp: once_def trace_simps is_closed_def)
  qed
qed

lemma Close_post_trans:
  assumes "Close_post w wa" and "Close_post wa wb"
  shows "Close_post w wb"
proof -
  from assms obtain es fs where
    es: "trace wa = trace w @ es" "\<forall>x. once w wa es x" and
    fs: "trace wb = trace wa @ fs" "\<forall>x. once wa wb fs x"
    by (auto simp: Close_post_def)
  have l1: "list_all2 later (clientWraps w) (clientWraps wa)"
           "list_all2 later (serverWraps w) (serverWraps wa)"
    and l2: "list_all2 later (clientWraps wa) (clientWraps wb)"
            "list_all2 later (serverWraps wa) (serverWraps wb)"
    using assms by (simp_all add: Close_post_def)
  have "\<forall>x. once w wb (es @ fs) x"
    using once_trans [OF l1 l2] es(2) fs(2) by blast
  moreover have "trace wb = trace w @ (es @ fs)" using es(1) fs(1) by simp
  ultimately show ?thesis
    using assms all2_later_trans [OF l1(1) l2(1)] all2_later_trans [OF l1(2) l2(2)]
    unfolding Close_post_def by metis
qed

lemma wrapClientConn_Close_closed:
  "i < length (clientWraps w) \<Longrightarrow> closed (clientWraps w ! i) \<Longrightarrow>
   wrapClientConn_Close e i w = (Inr (closeErr (clientWraps w ! i)), w)"
  by simp

lemma wrapServerConn_Close_closed:
  "j < length (serverWraps w) \<Longrightarrow> closed (serverWraps w ! j) \<Longrightarrow>
   wrapServerConn_Close e j w = (Inr (closeErr (serverWraps w ! j)), w)"
  by simp

lemma wrapClientConn_Close_open:
  assumes "i < length (clientWraps w)" and "\<not> closed (clientWraps w ! i)"
  shows "wrapClientConn_Close e i w =
     (case connCtx (clientWraps w ! i) of
        None \<Rightarrow> (Inl NilDereference, client_closed e i w)
      | Some _ \<Rightarrow>
          (case ServerConn (ctx w) of
             None \<Rightarrow> (Inr (raw_Close e (trace w) (Conn (clientWraps w ! i))), client_notified e i w)
           | Some sc \<Rightarrow>
               (case sc_Conn sc of
                  None \<Rightarrow> (Inr (raw_Close e (trace w) (Conn (clientWraps w ! i))),
                            client_notified e i w)
                | Some k \<Rightarrow>
                    (case conn_Close e k (client_notified e i w) of
                       (Inl f, w4) \<Rightarrow> (Inl f, w4)
                     | (Inr _, w4) \<Rightarrow> (Inr (closeErr (clientWraps w4 ! i)), w4)))))"
  using assms
  by (simp add: Let_def client_notified_def client_closed_def emit_def
           split: option.splits del: conn_Close.simps)

lemma wrapServerConn_Close_open:
  assumes "j < length (serverWraps w)" and "\<not> closed (serverWraps w ! j)"
  shows "wrapServerConn_Close e j w =
     (case connCtx (serverWraps w ! j) of
        None \<Rightarrow> (Inl NilDereference, server_notified e j w)
      | Some _ \<Rightarrow>
          (case ClientConn (ctx w) of
             None \<Rightarrow> (Inl NilDereference, server_notified e j w)
           | Some cc \<Rightarrow>
               (case cc_Conn cc of
                  None \<Rightarrow> (Inl NilDereference, server_notified e j w)
                | Some k \<Rightarrow>
                    (case conn_Close e k (server_notified e j w) of
                       (Inl f, w4) \<Rightarrow> (Inl f, w4)
                     | (Inr _, w4) \<Rightarrow> (Inr (closeErr (serverWraps w4 ! j)), w4)))))"
  using assms
  by (simp add: Let_def server_notified_def server_closed_def emit_def
           split: option.splits del: conn_Close.simps)

lemma wrapClientConn_Close_nil:
  "length (clientWraps w) \<le> i \<Longrightarrow> wrapClientConn_Close e i w = (Inl NilDereference, w)"
  by simp

lemma wrapServerConn_Close_nil:
  "length (serverWraps w) \<le> j \<Longrightarrow> wrapServerConn_Close e j w = (Inl NilDereference, w)"
  by simp

lemma conn_Close_cases:
  "conn_Close e (RawConn r) w = (Inr (raw_Close e (trace w) r), emit [RawClose r] w)"
  "conn_Close e (WrapClient i) w = wrapClientConn_Close e i w"
  "conn_Close e (WrapServer j) w = wrapServerConn_Close e j w"
  by simp_all

declare wrapClientConn_Close.simps [simp del] wrapServerConn_Close.simps [simp del]
  conn_Close.simps [simp del]

lemma client_closed_fields:
  "clientWraps (client_closed e i w) = (clientWraps w)
     [i := (clientWraps w ! i)\<lparr>closed := True,
             closeErr := raw_Close e (trace w) (Conn (clientWraps w ! i))\<rparr>]"
  "serverWraps (client_closed e i w) = serverWraps w"
  "ctx (client_closed e i w) = ctx w"
  "uuids (client_closed e i w) = uuids w"
  "trace (client_closed e i w)
     = trace w @ [UnderlyingClose (WrapClient i) (Conn (clientWraps w ! i))]"
  by (simp_all add: client_closed_def Let_def emit_def)

lemma client_notified_fields:
  "clientWraps (client_notified e i w) = clientWraps (client_closed e i w)"
  "serverWraps (client_notified e i w) = serverWraps w"
  "ctx (client_notified e i w) = ctx w"
  "uuids (client_notified e i w) = uuids w"
  "trace (client_notified e i w)
     = trace w @ UnderlyingClose (WrapClient i) (Conn (clientWraps w ! i))
         # map (ClientDisconnected (WrapClient i)) (Addons (proxy (clientWraps w ! i)))"
  by (simp_all add: client_notified_def client_closed_fields emit_def)

lemma server_closed_fields:
  "serverWraps (server_closed e j w) = (serverWraps w)
     [j := (serverWraps w ! j)\<lparr>closed := True,
             closeErr := raw_Close e (trace w) (Conn (serverWraps w ! j))\<rparr>]"
  "clientWraps (server_closed e j w) = clientWraps w"
  "ctx (server_closed e j w) = ctx w"
  "uuids (server_closed e j w) = uuids w"
  "trace (server_closed e j w)
     = trace w @ [UnderlyingClose (WrapServer j) (Conn (serverWraps w ! j))]"
  by (simp_all add: server_closed_def Let_def emit_def)

lemma server_notified_fields:
  "serverWraps (server_notified e j w) = serverWraps (server_closed e j w)"
  "clientWraps (server_notified e j w) = clientWraps w"
  "ctx (server_notified e j w) = ctx w"
  "uuids (server_notified e j w) = uuids w"
  "trace (server_notified e j w)
     = trace w @ UnderlyingClose (WrapServer j) (Conn (serverWraps w ! j))
         # map (ServerDisconnected (WrapServer j)) (Addons (proxy (serverWraps w ! j)))"
  by (simp_all add: server_notified_def server_closed_fields emit_def)

lemma Close_post_client_closed:
  assumes "i < length (clientWraps w)" and "\<not> closed (clientWraps w ! i)"
  shows "Close_post w (client_closed e i w)"
proof -
  have "once w (client_closed e i w) [UnderlyingClose (WrapClient i) (Conn (clientWraps w ! i))] x" for x
    using assms by (cases x) (auto simp: once_def client_closed_fields is_closed_def)
  then show ?thesis
    using assms all2_later_update [OF assms]
    by (auto simp: Close_post_def client_closed_fields all2_later_refl)
qed

lemma Close_post_client_notified:
  assumes "i < length (clientWraps w)" and "\<not> closed (clientWraps w ! i)"
  shows "Close_post w (client_notified e i w)"
proof -
  have "once w (client_notified e i w)
          (UnderlyingClose (WrapClient i) (Conn (clientWraps w ! i))
            # map (ClientDisconnected (WrapClient i)) (Addons (proxy (clientWraps w ! i)))) x" for x
    using assms
    by (cases x) (auto simp: once_def client_notified_fields client_closed_fields
                    is_closed_def trace_simps)
  then show ?thesis
    using assms all2_later_update [OF assms]
    by (auto simp: Close_post_def client_notified_fields client_closed_fields all2_later_refl)
qed

lemma Close_post_server_notified:
  assumes "j < length (serverWraps w)" and "\<not> closed (serverWraps w ! j)"
  shows "Close_post w (server_notified e j w)"
proof -
  have "once w (server_notified e j w)
          (UnderlyingClose (WrapServer j) (Conn (serverWraps w ! j))
            # map (ServerDisconnected (WrapServer j)) (Addons (proxy (serverWraps w ! j)))) x" for x
    using assms
    by (cases x) (auto simp: once_def server_notified_fields server_closed_fields
                    is_closed_def trace_simps)
  then show ?thesis
    using assms all2_later_update [OF assms]
    by (auto simp: Close_post_def server_notified_fields server_closed_fields all2_later_refl)
qed

lemma Close_post_RawClose: "Close_post w (emit [RawClose r] w)"
  by (simp add: Close_post_def emit_def all2_later_refl once_def)

text \<open>
  The two places where \<open>Close\<close> has no guard: a client wrapper that has no
  context yet (as \<open>wrapListener_Accept\<close> leaves it) panics after the close of its
  connection and before any notification; a server wrapper whose context has no
  client connection panics after its notifications.
\<close>

lemma wrapClientConn_Close_without_context:
  assumes "i < length (clientWraps w)" and "\<not> closed (clientWraps w ! i)"
    and "connCtx (clientWraps w ! i) = None"
  shows "wrapClientConn_Close e i w = (Inl NilDereference, client_closed e i w)"
  using assms by (simp add: wrapClientConn_Close_open)

lemma wrapServerConn_Close_without_client:
  assumes "j < length (serverWraps w)" and "\<not> closed (serverWraps w ! j)"
    and "ClientConn (ctx w) = None \<or> (\<exists>cc. ClientConn (ctx w) = Some cc \<and> cc_Conn cc = None)"
  shows "wrapServerConn_Close e j w = (Inl NilDereference, server_notified e j w)"
  using assms by (auto simp: wrapServerConn_Close_open split: option.splits)

lemma snd_wrapClientConn_Close_open:
  assumes "i < length (clientWraps w)" and "\<not> closed (clientWraps w ! i)"
  shows "snd (wrapClientConn_Close e i w) =
     (case connCtx (clientWraps w ! i) of
        None \<Rightarrow> client_closed e i w
      | Some _ \<Rightarrow>
          (case ServerConn (ctx w) of
             None \<Rightarrow> client_notified e i w
           | Some sc \<Rightarrow>
               (case sc_Conn sc of
                  None \<Rightarrow> client_notified e i w
                | Some k \<Rightarrow> snd (conn_Close e k (client_notified e i w)))))"
  by (simp add: wrapClientConn_Close_open [OF assms]
           split: option.splits prod.splits sum.splits)

lemma snd_wrapServerConn_Close_open:
  assumes "j < length (serverWraps w)" and "\<not> closed (serverWraps w ! j)"
  shows "snd (wrapServerConn_Close e j w) =
     (case connCtx (serverWraps w ! j) of
        None \<Rightarrow> server_notified e j w
      | Some _ \<Rightarrow>
          (case ClientConn (ctx w) of
             None \<Rightarrow> server_notified e j w
           | Some cc \<Rightarrow>
               (case cc_Conn cc of
                  None \<Rightarrow> server_notified e j w
                | Some k \<Rightarrow> snd (conn_Close e k (server_notified e j w)))))"
  by (simp add: wrapServerConn_Close_open [OF assms]
           split: option.splits prod.splits sum.splits)

lemma Close_post_Close:
  "Close_post w (snd (wrapClientConn_Close e i w))"
  "Close_post w (snd (wrapServerConn_Close e j w))"
  "Close_post w (snd (conn_Close e k w))"
proof (induction e i w and e j w and e k w
       rule: wrapClientConn_Close_wrapServerConn_Close_conn_Close.induct)
  case (1 e i w)
  show ?case
  proof (cases "i < length (clientWraps w) \<and> \<not> closed (clientWraps w ! i)")
    case False
    then show ?thesis
      by (cases "length (clientWraps w) \<le> i")
         (auto simp: Close_post_refl wrapClientConn_Close_nil wrapClientConn_Close_closed)
  next
    case True
    have IH: "Close_post (client_notified e i w) (snd (conn_Close e k (client_notified e i w)))"
      if "connCtx (clientWraps w ! i) = Some u" "ServerConn (ctx w) = Some sc" "sc_Conn sc = Some k"
      for u sc k
      using "1.IH" [OF _ _ refl refl refl refl _ refl, of u sc k] True that
      by (simp add: client_notified_def client_closed_def Let_def emit_def)
    have own: "Close_post w (client_notified e i w)" "Close_post w (client_closed e i w)"
      using True by (simp_all add: Close_post_client_notified Close_post_client_closed)
    have casc: "Close_post w (snd (conn_Close e k (client_notified e i w)))"
      if "connCtx (clientWraps w ! i) = Some u" "ServerConn (ctx w) = Some sc" "sc_Conn sc = Some k"
      for u sc k
      using Close_post_trans [OF own(1) IH [OF that]] .
    show ?thesis
      using True own casc
      by (auto simp: snd_wrapClientConn_Close_open split: option.splits)
  qed
next
  case (2 e j w)
  show ?case
  proof (cases "j < length (serverWraps w) \<and> \<not> closed (serverWraps w ! j)")
    case False
    then show ?thesis
      by (cases "length (serverWraps w) \<le> j")
         (auto simp: Close_post_refl wrapServerConn_Close_nil wrapServerConn_Close_closed)
  next
    case True
    have IH: "Close_post (server_notified e j w) (snd (conn_Close e k (server_notified e j w)))"
      if "connCtx (serverWraps w ! j) = Some u" "ClientConn (ctx w) = Some cc" "cc_Conn cc = Some k"
      for u cc k
      using "2.IH" [OF _ _ refl refl refl refl refl, of u cc k] True that
      by (simp add: server_notified_def server_closed_def Let_def emit_def)
    have own: "Close_post w (server_notified e j w)"
      using True by (simp add: Close_post_server_notified)
    have casc: "Close_post w (snd (conn_Close e k (server_notified e j w)))"
      if "connCtx (serverWraps w ! j) = Some u" "ClientConn (ctx w) = Some cc" "cc_Conn cc = Some k"
      for u cc k
      using Close_post_trans [OF own IH [OF that]] .
    show ?thesis
      using True own casc
      by (auto simp: snd_wrapServerConn_Close_open split: option.splits)
  qed
next
  case (3 e k w)
  then show ?case
    by (cases k) (simp_all add: Close_post_RawClose conn_Close_cases)
qed

lemma Close_post_Close_seq: "Close_post w (Close_seq e ks w)"
proof (induction ks arbitrary: w)
  case Nil
  show ?case by (simp add: Close_post_refl)
next
  case (Cons k ks)
  show ?case
    using Close_post_trans [OF Close_post_Close(3) Cons.IH] by simp
qed

lemma Close_post_client_kept:
  assumes "Close_post w w'" and "i < length (clientWraps w)" and "closed (clientWraps w ! i)"
  shows "i < length (clientWraps w') \<and> clientWraps w' ! i = clientWraps w ! i"
proof -
  from assms(1) have l: "list_all2 later (clientWraps w) (clientWraps w')"
    by (simp add: Close_post_def)
  from later_nth [OF l assms(2)] assms(3) list_all2_lengthD [OF l] assms(2)
  show ?thesis by (simp add: later_def)
qed

lemma Close_post_server_kept:
  assumes "Close_post w w'" and "j < length (serverWraps w)" and "closed (serverWraps w ! j)"
  shows "j < length (serverWraps w') \<and> serverWraps w' ! j = serverWraps w ! j"
proof -
  from assms(1) have l: "list_all2 later (serverWraps w) (serverWraps w')"
    by (simp add: Close_post_def)
  from later_nth [OF l assms(2)] assms(3) list_all2_lengthD [OF l] assms(2)
  show ?thesis by (simp add: later_def)
qed

lemma Close_post_new_events:
  assumes "Close_post w w'"
  shows "trace w' = trace w @ new_events w w'" and "once w w' (new_events w w') x"
  using assms by (auto simp: Close_post_def new_events_def)

text \<open>Events of a wrapper that is closed already do not occur.\<close>

lemma Close_post_silent:
  assumes "Close_post w w'" and "is_closed w x"
  shows "closes_of x (new_events w w') = [] \<and> notes_of x (new_events w w') = []"
  using Close_post_new_events(2) [OF assms(1), of x] assms(2)
  by (auto simp: once_def is_closed_def split: option.splits)

lemma new_events_trans:
  assumes "trace wa = trace w @ es" and "trace wb = trace wa @ fs"
  shows "new_events w wb = es @ fs"
  using assms by (simp add: new_events_def)

lemma client_notified_then:
  assumes "i < length (clientWraps w)" and "\<not> closed (clientWraps w ! i)"
    and "connCtx (clientWraps w ! i) = Some u"
  shows "Close_post (client_notified e i w) (snd (wrapClientConn_Close e i w))"
  using assms Close_post_Close(3) [of "client_notified e i w" e]
  by (auto simp: snd_wrapClientConn_Close_open Close_post_refl split: option.splits)

lemma server_notified_then:
  assumes "j < length (serverWraps w)" and "\<not> closed (serverWraps w ! j)"
  shows "Close_post (server_notified e j w) (snd (wrapServerConn_Close e j w))"
  using assms Close_post_Close(3) [of "server_notified e j w" e]
  by (auto simp: snd_wrapServerConn_Close_open Close_post_refl split: option.splits)

lemma first_client_Close:
  assumes i: "i < length (clientWraps w)" and o: "\<not> closed (clientWraps w ! i)"
    and u: "connCtx (clientWraps w ! i) = Some u"
  shows "closes_of (WrapClient i) (new_events w (snd (wrapClientConn_Close e i w)))
           = [Conn (clientWraps w ! i)]"
    and "notes_of (WrapClient i) (new_events w (snd (wrapClientConn_Close e i w)))
           = Addons (proxy (clientWraps w ! i))"
    and "i < length (clientWraps (snd (wrapClientConn_Close e i w)))"
    and "clientWraps (snd (wrapClientConn_Close e i w)) ! i
           = (clientWraps w ! i)\<lparr>closed := True,
                closeErr := raw_Close e (trace w) (Conn (clientWraps w ! i))\<rparr>"
proof -
  let ?n = "client_notified e i w" and ?w' = "snd (wrapClientConn_Close e i w)"
  have p: "Close_post ?n ?w'" by (rule client_notified_then [OF i o u])
  have c: "is_closed ?n (WrapClient i)"
    using i by (simp add: is_closed_def client_notified_fields client_closed_fields)
  have t: "new_events w ?w'
             = (UnderlyingClose (WrapClient i) (Conn (clientWraps w ! i))
                 # map (ClientDisconnected (WrapClient i)) (Addons (proxy (clientWraps w ! i))))
               @ new_events ?n ?w'"
    using new_events_trans [OF _ Close_post_new_events(1) [OF p], of w]
    by (simp add: client_notified_fields)
  show "closes_of (WrapClient i) (new_events w ?w') = [Conn (clientWraps w ! i)]"
    using Close_post_silent [OF p c] by (simp add: t trace_simps)
  show "notes_of (WrapClient i) (new_events w ?w') = Addons (proxy (clientWraps w ! i))"
    using Close_post_silent [OF p c] by (simp add: t trace_simps)
  have k: "i < length (clientWraps ?n)" "closed (clientWraps ?n ! i)"
    using i by (simp_all add: client_notified_fields client_closed_fields)
  show "i < length (clientWraps ?w')"
    using Close_post_client_kept [OF p k] by simp
  show "clientWraps ?w' ! i = (clientWraps w ! i)\<lparr>closed := True,
                closeErr := raw_Close e (trace w) (Conn (clientWraps w ! i))\<rparr>"
    using Close_post_client_kept [OF p k] i
    by (simp add: client_notified_fields client_closed_fields)
qed

lemma first_server_Close:
  assumes j: "j < length (serverWraps w)" and o: "\<not> closed (serverWraps w ! j)"
  shows "closes_of (WrapServer j) (new_events w (snd (wrapServerConn_Close e j w)))
           = [Conn (serverWraps w ! j)]"
    and "notes_of (WrapServer j) (new_events w (snd (wrapServerConn_Close e j w)))
           = Addons (proxy (serverWraps w ! j))"
    and "j < length (serverWraps (snd (wrapServerConn_Close e j w)))"
    and "serverWraps (snd (wrapServerConn_Close e j w)) ! j
           = (serverWraps w ! j)\<lparr>closed := True,
                closeErr := raw_Close e (trace w) (Conn (serverWraps w ! j))\<rparr>"
proof -
  let ?n = "server_notified e j w" and ?w' = "snd (wrapServerConn_Close e j w)"
  have p: "Close_post ?n ?w'" by (rule server_notified_then [OF j o])
  have c: "is_closed ?n (WrapServer j)"
    using j by (simp add: is_closed_def server_notified_fields server_closed_fields)
  have t: "new_events w ?w'
             = (UnderlyingClose (WrapServer j) (Conn (serverWraps w ! j))
                 # map (ServerDisconnected (WrapServer j)) (Addons (proxy (serverWraps w ! j))))
               @ new_events ?n ?w'"
    using new_events_trans [OF _ Close_post_new_events(1) [OF p], of w]
    by (simp add: server_notified_fields)
  show "closes_of (WrapServer j) (new_events w ?w') = [Conn (serverWraps w ! j)]"
    using Close_post_silent [OF p c] by (simp add: t trace_simps)
  show "notes_of (WrapServer j) (new_events w ?w') = Addons (proxy (serverWraps w ! j))"
    using Close_post_silent [OF p c] by (simp add: t trace_simps)
  have k: "j < length (serverWraps ?n)" "closed (serverWraps ?n ! j)"
    using j by (simp_all add: server_notified_fields server_closed_fields)
  show "j < length (serverWraps ?w')"
    using Close_post_server_kept [OF p k] by simp
  show "serverWraps ?w' ! j = (serverWraps w ! j)\<lparr>closed := True,
                closeErr := raw_Close e (trace w) (Conn (serverWraps w ! j))\<rparr>"
    using Close_post_server_kept [OF p k] j
    by (simp add: server_notified_fields server_closed_fields)
qed

lemma wrapClientConn_Close_closes:
  assumes "i < length (clientWraps w)"
  shows "is_closed (snd (wrapClientConn_Close e i w)) (WrapClient i)"
proof (cases "closed (clientWraps w ! i)")
  case True
  with assms show ?thesis by (simp add: wrapClientConn_Close_closed is_closed_def)
next
  case False
  show ?thesis
  proof (cases "connCtx (clientWraps w ! i)")
    case None
    with assms False show ?thesis
      by (simp add: snd_wrapClientConn_Close_open is_closed_def client_closed_fields)
  next
    case (Some u)
    from first_client_Close(3,4) [OF assms False Some, of e] show ?thesis
      by (simp add: is_closed_def)
  qed
qed

lemma wrapServerConn_Close_closes:
  assumes "j < length (serverWraps w)"
  shows "is_closed (snd (wrapServerConn_Close e j w)) (WrapServer j)"
proof (cases "closed (serverWraps w ! j)")
  case True
  with assms show ?thesis by (simp add: wrapServerConn_Close_closed is_closed_def)
next
  case False
  from first_server_Close(3,4) [OF assms False, of e] show ?thesis
    by (simp add: is_closed_def)
qed

lemma conn_Close_reached: "Close_reached w (snd (conn_Close e k w)) k"
proof (cases k)
  case (RawConn r)
  then show ?thesis by (simp add: conn_Close_cases new_events_def emit_def)
next
  case (WrapClient i)
  then show ?thesis
    using wrapClientConn_Close_closes [of i w e] by (simp add: conn_Close_cases)
next
  case (WrapServer j)
  then show ?thesis
    using wrapServerConn_Close_closes [of j w e] by (simp add: conn_Close_cases)
qed

text \<open>What the cascade reached is reached by the whole call.\<close>

lemma Close_reached_from:
  assumes "Close_post w n" and "Close_post n w'" and "Close_reached n w' k"
  shows "Close_reached w w' k"
proof (cases k)
  case (RawConn r)
  from assms(1,2) obtain es fs where "trace n = trace w @ es" "trace w' = trace n @ fs"
    by (auto simp: Close_post_def)
  then have "new_events w w' = es @ fs" "new_events n w' = fs"
    by (simp_all add: new_events_def)
  with assms(3) RawConn show ?thesis by simp
next
  case (WrapClient i)
  from assms(1) have "length (clientWraps n) = length (clientWraps w)"
    by (auto simp: Close_post_def dest: list_all2_lengthD)
  with assms(3) WrapClient show ?thesis by (auto split: if_splits)
next
  case (WrapServer j)
  from assms(1) have "length (serverWraps n) = length (serverWraps w)"
    by (auto simp: Close_post_def dest: list_all2_lengthD)
  with assms(3) WrapServer show ?thesis by (auto split: if_splits)
qed

lemma client_cascade_reached:
  assumes i: "i < length (clientWraps w)" and o: "\<not> closed (clientWraps w ! i)"
    and u: "connCtx (clientWraps w ! i) = Some u"
    and s: "ServerConn (ctx w) = Some sc" "sc_Conn sc = Some k"
  shows "Close_reached w (snd (wrapClientConn_Close e i w)) k"
proof -
  have eq: "snd (wrapClientConn_Close e i w) = snd (conn_Close e k (client_notified e i w))"
    using i o u s by (simp add: snd_wrapClientConn_Close_open)
  show ?thesis
    unfolding eq
    by (rule Close_reached_from [OF Close_post_client_notified [OF i o] Close_post_Close(3)
          conn_Close_reached])
qed

lemma server_cascade_reached:
  assumes j: "j < length (serverWraps w)" and o: "\<not> closed (serverWraps w ! j)"
    and u: "connCtx (serverWraps w ! j) = Some u"
    and s: "ClientConn (ctx w) = Some cc" "cc_Conn cc = Some k"
  shows "Close_reached w (snd (wrapServerConn_Close e j w)) k"
proof -
  have eq: "snd (wrapServerConn_Close e j w) = snd (conn_Close e k (server_notified e j w))"
    using j o u s by (simp add: snd_wrapServerConn_Close_open)
  show ?thesis
    unfolding eq
    by (rule Close_reached_from [OF Close_post_server_notified [OF j o] Close_post_Close(3)
          conn_Close_reached])
qed

lemma client_Close_result:
  assumes i: "i < length (clientWraps w)" and o: "\<not> closed (clientWraps w ! i)"
    and u: "connCtx (clientWraps w ! i) = Some u"
  shows "fst (wrapClientConn_Close e i w) = Inr (raw_Close e (trace w) (Conn (clientWraps w ! i)))
       \<or> (\<exists>f. fst (wrapClientConn_Close e i w) = Inl f)"
proof (cases "fst (wrapClientConn_Close e i w)")
  case (Inl f)
  then show ?thesis by simp
next
  case (Inr r)
  have "r = closeErr (clientWraps (snd (wrapClientConn_Close e i w)) ! i)"
    using Inr i o u
    by (auto simp: wrapClientConn_Close_open client_notified_fields client_closed_fields
             split: option.splits prod.splits sum.splits)
  with first_client_Close(4) [OF i o u, of e] Inr show ?thesis by simp
qed

lemma server_Close_result:
  assumes j: "j < length (serverWraps w)" and o: "\<not> closed (serverWraps w ! j)"
  shows "fst (wrapServerConn_Close e j w) = Inr (raw_Close e (trace w) (Conn (serverWraps w ! j)))
       \<or> (\<exists>f. fst (wrapServerConn_Close e j w) = Inl f)"
proof (cases "fst (wrapServerConn_Close e j w)")
  case (Inl f)
  then show ?thesis by simp
next
  case (Inr r)
  have "r = closeErr (serverWraps (snd (wrapServerConn_Close e j w)) ! j)"
    using Inr j o
    by (auto simp: wrapServerConn_Close_open split: option.splits prod.splits sum.splits)
  with first_server_Close(4) [OF j o, of e] Inr show ?thesis by simp
qed

lemma client_Close_again:
  assumes i: "i < length (clientWraps w)" and o: "\<not> closed (clientWraps w ! i)"
    and u: "connCtx (clientWraps w ! i) = Some u"
  shows "wrapClientConn_Close e i (Close_seq e ks (snd (wrapClientConn_Close e i w)))
           = (Inr (raw_Close e (trace w) (Conn (clientWraps w ! i))),
              Close_seq e ks (snd (wrapClientConn_Close e i w)))"
proof -
  let ?w' = "snd (wrapClientConn_Close e i w)"
  have k: "i < length (clientWraps ?w')" "closed (clientWraps ?w' ! i)"
    using first_client_Close(3,4) [OF i o u, of e] by simp_all
  from Close_post_client_kept [OF Close_post_Close_seq k, of e ks]
       first_client_Close(4) [OF i o u, of e]
  show ?thesis by (simp add: wrapClientConn_Close_closed)
qed

lemma server_Close_again:
  assumes j: "j < length (serverWraps w)" and o: "\<not> closed (serverWraps w ! j)"
  shows "wrapServerConn_Close e j (Close_seq e ks (snd (wrapServerConn_Close e j w)))
           = (Inr (raw_Close e (trace w) (Conn (serverWraps w ! j))),
              Close_seq e ks (snd (wrapServerConn_Close e j w)))"
proof -
  let ?w' = "snd (wrapServerConn_Close e j w)"
  have k: "j < length (serverWraps ?w')" "closed (serverWraps ?w' ! j)"
    using first_server_Close(3,4) [OF j o, of e] by simp_all
  from Close_post_server_kept [OF Close_post_Close_seq k, of e ks]
       first_server_Close(4) [OF j o, of e]
  show ?thesis by (simp add: wrapServerConn_Close_closed)
qed

lemma client_Close_alone:
  assumes i: "i < length (clientWraps w)" and o: "\<not> closed (clientWraps w ! i)"
    and u: "connCtx (clientWraps w ! i) = Some u"
    and s: "ServerConn (ctx w) = None \<or> (\<exists>sc. ServerConn (ctx w) = Some sc \<and> sc_Conn sc = None)"
  shows "fst (wrapClientConn_Close e i w) = Inr (raw_Close e (trace w) (Conn (clientWraps w ! i)))"
    and "new_events w (snd (wrapClientConn_Close e i w))
           = UnderlyingClose (WrapClient i) (Conn (clientWraps w ! i))
               # map (ClientDisconnected (WrapClient i)) (Addons (proxy (clientWraps w ! i)))"
    and "serverWraps (snd (wrapClientConn_Close e i w)) = serverWraps w"
  using assms
  by (auto simp: wrapClientConn_Close_open client_notified_fields new_events_def)

lemma events_by_append: "events_by x (es @ fs) = events_by x es @ events_by x fs"
  by (induction x es rule: events_by.induct) simp_all

lemma events_by_silent:
  "closes_of x es = [] \<Longrightarrow> notes_of x es = [] \<Longrightarrow> events_by x es = []"
  by (induction x es rule: events_by.induct) (auto split: if_splits)

lemma events_by_ClientDisconnected:
  "events_by x (map (ClientDisconnected y) as) = (if x = y then map (ClientDisconnected y) as else [])"
  by (induction as) auto

lemma events_by_ServerDisconnected:
  "events_by x (map (ServerDisconnected y) as) = (if x = y then map (ServerDisconnected y) as else [])"
  by (induction as) auto

lemma first_client_Close_events:
  assumes i: "i < length (clientWraps w)" and o: "\<not> closed (clientWraps w ! i)"
    and u: "connCtx (clientWraps w ! i) = Some u"
  shows "events_by (WrapClient i) (new_events w (snd (wrapClientConn_Close e i w)))
           = UnderlyingClose (WrapClient i) (Conn (clientWraps w ! i))
               # map (ClientDisconnected (WrapClient i)) (Addons (proxy (clientWraps w ! i)))"
proof -
  let ?n = "client_notified e i w" and ?w' = "snd (wrapClientConn_Close e i w)"
  have p: "Close_post ?n ?w'" by (rule client_notified_then [OF i o u])
  have c: "is_closed ?n (WrapClient i)"
    using i by (simp add: is_closed_def client_notified_fields client_closed_fields)
  have t: "new_events w ?w'
             = (UnderlyingClose (WrapClient i) (Conn (clientWraps w ! i))
                 # map (ClientDisconnected (WrapClient i)) (Addons (proxy (clientWraps w ! i))))
               @ new_events ?n ?w'"
    using new_events_trans [OF _ Close_post_new_events(1) [OF p], of w]
    by (simp add: client_notified_fields)
  have "events_by (WrapClient i) (new_events ?n ?w') = []"
    using Close_post_silent [OF p c] by (simp add: events_by_silent)
  then show ?thesis
    by (simp add: t events_by_append events_by_ClientDisconnected)
qed

lemma first_server_Close_events:
  assumes j: "j < length (serverWraps w)" and o: "\<not> closed (serverWraps w ! j)"
  shows "events_by (WrapServer j) (new_events w (snd (wrapServerConn_Close e j w)))
           = UnderlyingClose (WrapServer j) (Conn (serverWraps w ! j))
               # map (ServerDisconnected (WrapServer j)) (Addons (proxy (serverWraps w ! j)))"
proof -
  let ?n = "server_notified e j w" and ?w' = "snd (wrapServerConn_Close e j w)"
  have p: "Close_post ?n ?w'" by (rule server_notified_then [OF j o])
  have c: "is_closed ?n (WrapServer j)"
    using j by (simp add: is_closed_def server_notified_fields server_closed_fields)
  have t: "new_events w ?w'
             = (UnderlyingClose (WrapServer j) (Conn (serverWraps w ! j))
                 # map (ServerDisconnected (WrapServer j)) (Addons (proxy (serverWraps w ! j))))
               @ new_events ?n ?w'"
    using new_events_trans [OF _ Close_post_new_events(1) [OF p], of w]
    by (simp add: server_notified_fields)
  have "events_by (WrapServer j) (new_events ?n ?w') = []"
    using Close_post_silent [OF p c] by (simp add: events_by_silent)
  then show ?thesis
    by (simp add: t events_by_append events_by_ServerDisconnected)
qed

text \<open>Closing keeps a session as the proxy builds it.\<close>

lemma all2_later_connCtx:
  assumes "list_all2 later xs ys" and "list_all (\<lambda>c. connCtx c = Some ()) xs"
  shows "list_all (\<lambda>c. connCtx c = Some ()) ys"
  using assms by (auto simp: list_all2_conv_all_nth list_all_length later_def)

lemma valid_conn_lengths:
  "length (clientWraps w') = length (clientWraps w) \<Longrightarrow>
   length (serverWraps w') = length (serverWraps w) \<Longrightarrow> valid_conn w' k = valid_conn w k"
  by (cases k) simp_all

lemma attached_Close_post:
  assumes "attached w" and "Close_post w w'"
  shows "attached w'"
proof -
  from assms(2) have l: "list_all2 later (clientWraps w) (clientWraps w')"
      "list_all2 later (serverWraps w) (serverWraps w')" and c: "ctx w' = ctx w"
    by (simp_all add: Close_post_def)
  have v: "valid_conn w' k = valid_conn w k" for k
    by (rule valid_conn_lengths)
       (simp_all add: list_all2_lengthD [OF l(1), symmetric] list_all2_lengthD [OF l(2), symmetric])
  from assms(1) have a: "list_all (\<lambda>c. connCtx c = Some ()) (clientWraps w)"
      "list_all (\<lambda>c. connCtx c = Some ()) (serverWraps w)"
    by (simp_all add: attached_def)
  have b: "list_all (\<lambda>c. connCtx c = Some ()) (clientWraps w')"
      "list_all (\<lambda>c. connCtx c = Some ()) (serverWraps w')"
    by (rule all2_later_connCtx [OF l(1) a(1)], rule all2_later_connCtx [OF l(2) a(2)])
  from assms(1) show ?thesis
    unfolding attached_def c
    by (auto simp: b v split: option.splits)
qed

lemma attached_valid:
  "attached w \<Longrightarrow> ClientConn (ctx w) = Some cc \<Longrightarrow> cc_Conn cc = Some k \<Longrightarrow> valid_conn w k"
  "attached w \<Longrightarrow> ServerConn (ctx w) = Some sc \<Longrightarrow> sc_Conn sc = Some k \<Longrightarrow> valid_conn w k"
  by (simp_all add: attached_def)

lemma attached_client:
  "attached w \<Longrightarrow> \<exists>cc k. ClientConn (ctx w) = Some cc \<and> cc_Conn cc = Some k"
  by (auto simp: attached_def split: option.splits)

lemma attached_connCtx:
  "attached w \<Longrightarrow> i < length (clientWraps w) \<Longrightarrow> connCtx (clientWraps w ! i) = Some ()"
  "attached w \<Longrightarrow> j < length (serverWraps w) \<Longrightarrow> connCtx (serverWraps w ! j) = Some ()"
  by (simp_all add: attached_def list_all_length)

text \<open>In such a session no \<open>Close\<close> panics.\<close>

lemma attached_no_panic:
  "attached w \<Longrightarrow> i < length (clientWraps w) \<Longrightarrow> \<exists>r. fst (wrapClientConn_Close e i w) = Inr r"
  "attached w \<Longrightarrow> j < length (serverWraps w) \<Longrightarrow> \<exists>r. fst (wrapServerConn_Close e j w) = Inr r"
  "attached w \<Longrightarrow> valid_conn w k \<Longrightarrow> \<exists>r. fst (conn_Close e k w) = Inr r"
proof (induction e i w and e j w and e k w
       rule: wrapClientConn_Close_wrapServerConn_Close_conn_Close.induct)
  case (1 e i w)
  show ?case
  proof (cases "closed (clientWraps w ! i)")
    case True
    with "1.prems" show ?thesis by (simp add: wrapClientConn_Close_closed)
  next
    case False
    have i: "i < length (clientWraps w)" by (rule "1.prems"(2))
    have u: "connCtx (clientWraps w ! i) = Some ()"
      by (rule attached_connCtx(1) [OF "1.prems"])
    let ?n = "client_notified e i w"
    have n: "attached ?n"
      by (rule attached_Close_post [OF "1.prems"(1) Close_post_client_notified [OF i False]])
    have IH: "\<exists>r. fst (conn_Close e k ?n) = Inr r"
      if "ServerConn (ctx w) = Some sc" "sc_Conn sc = Some k" for sc k
    proof -
      have "valid_conn ?n k"
        using attached_valid(2) [OF n, of sc k] that by (simp add: client_notified_fields)
      with "1.IH" [OF _ _ refl refl refl refl _ refl, of "()" sc k] i False u that n
      show ?thesis
        by (simp add: client_notified_def client_closed_def Let_def emit_def)
    qed
    show ?thesis
    proof (cases "ServerConn (ctx w)")
      case None
      with i False u show ?thesis by (simp add: wrapClientConn_Close_open)
    next
      case (Some sc)
      show ?thesis
      proof (cases "sc_Conn sc")
        case None
        with Some i False u show ?thesis by (simp add: wrapClientConn_Close_open)
      next
        case (Some k)
        from IH [OF \<open>ServerConn (ctx w) = Some sc\<close> Some]
        obtain r where "fst (conn_Close e k ?n) = Inr r" by blast
        with \<open>ServerConn (ctx w) = Some sc\<close> Some i False u show ?thesis
          by (cases "conn_Close e k ?n") (simp add: wrapClientConn_Close_open)
      qed
    qed
  qed
next
  case (2 e j w)
  show ?case
  proof (cases "closed (serverWraps w ! j)")
    case True
    with "2.prems" show ?thesis by (simp add: wrapServerConn_Close_closed)
  next
    case False
    have j: "j < length (serverWraps w)" by (rule "2.prems"(2))
    have u: "connCtx (serverWraps w ! j) = Some ()"
      by (rule attached_connCtx(2) [OF "2.prems"])
    obtain cc k where cc: "ClientConn (ctx w) = Some cc" "cc_Conn cc = Some k"
      using attached_client [OF "2.prems"(1)] by blast
    let ?n = "server_notified e j w"
    have n: "attached ?n"
      by (rule attached_Close_post [OF "2.prems"(1) Close_post_server_notified [OF j False]])
    have "valid_conn ?n k"
      using attached_valid(1) [OF n, of cc k] cc by (simp add: server_notified_fields)
    with "2.IH" [OF _ _ refl refl refl refl refl, of "()" cc k] j False u cc n
    have "\<exists>r. fst (conn_Close e k ?n) = Inr r"
      by (simp add: server_notified_def server_closed_def Let_def emit_def)
    then obtain r where "fst (conn_Close e k ?n) = Inr r" by blast
    with j False u cc show ?thesis
      by (cases "conn_Close e k ?n") (simp add: wrapServerConn_Close_open)
  qed
next
  case (3 e k w)
  then show ?case
    by (cases k) (simp_all add: conn_Close_cases)
qed

text \<open>
  C4.  The first \<open>Close\<close> of a wrapper (a wrapper that is still open; for the
  client wrapper, one that has its context, which line 223 dereferences) leaves in
  the trace, as the events of that wrapper and in this order, exactly one close of
  the embedded connection and then one notification of every addon of the wrapper's
  proxy: \<open>ClientDisconnected\<close> from the client wrapper, \<open>ServerDisconnected\<close>
  from the server wrapper.  It caches the error of that close, and it calls
  \<open>Close\<close> on the connection of the other side when there is one; the client
  wrapper does nothing more when there is none.  The call returns the cached error
  unless the cascade panics, and in a session as the proxy builds it nothing panics:
  it returns the cached error.  After it, whatever other \<open>Close\<close> calls come in
  between, a \<open>Close\<close> of the same wrapper changes nothing (no close, no
  notification, no cascade) and returns the same cached error.
\<close>

theorem Close_first_and_again:
  "(i < length (clientWraps w) \<and> \<not> closed (clientWraps w ! i)
      \<and> connCtx (clientWraps w ! i) = Some u \<longrightarrow>
      events_by (WrapClient i) (new_events w (snd (wrapClientConn_Close e i w)))
        = UnderlyingClose (WrapClient i) (Conn (clientWraps w ! i))
            # map (ClientDisconnected (WrapClient i)) (Addons (proxy (clientWraps w ! i)))
    \<and> closes_of (WrapClient i) (new_events w (snd (wrapClientConn_Close e i w)))
        = [Conn (clientWraps w ! i)]
    \<and> wrapper_at (snd (wrapClientConn_Close e i w)) (WrapClient i)
        = Some ((clientWraps w ! i)\<lparr>closed := True,
                  closeErr := raw_Close e (trace w) (Conn (clientWraps w ! i))\<rparr>)
    \<and> (fst (wrapClientConn_Close e i w) = Inr (raw_Close e (trace w) (Conn (clientWraps w ! i)))
         \<or> (\<exists>f. fst (wrapClientConn_Close e i w) = Inl f))
    \<and> (attached w \<longrightarrow>
          fst (wrapClientConn_Close e i w) = Inr (raw_Close e (trace w) (Conn (clientWraps w ! i))))
    \<and> (\<forall>sc k. ServerConn (ctx w) = Some sc \<and> sc_Conn sc = Some k \<longrightarrow>
          Close_reached w (snd (wrapClientConn_Close e i w)) k)
    \<and> (ServerConn (ctx w) = None \<or> (\<exists>sc. ServerConn (ctx w) = Some sc \<and> sc_Conn sc = None) \<longrightarrow>
          fst (wrapClientConn_Close e i w) = Inr (raw_Close e (trace w) (Conn (clientWraps w ! i)))
        \<and> new_events w (snd (wrapClientConn_Close e i w))
            = UnderlyingClose (WrapClient i) (Conn (clientWraps w ! i))
                # map (ClientDisconnected (WrapClient i)) (Addons (proxy (clientWraps w ! i))))
    \<and> (\<forall>ks. wrapClientConn_Close e i (Close_seq e ks (snd (wrapClientConn_Close e i w)))
          = (Inr (raw_Close e (trace w) (Conn (clientWraps w ! i))),
             Close_seq e ks (snd (wrapClientConn_Close e i w)))))
 \<and> (j < length (serverWraps v) \<and> \<not> closed (serverWraps v ! j) \<longrightarrow>
      events_by (WrapServer j) (new_events v (snd (wrapServerConn_Close e j v)))
        = UnderlyingClose (WrapServer j) (Conn (serverWraps v ! j))
            # map (ServerDisconnected (WrapServer j)) (Addons (proxy (serverWraps v ! j)))
    \<and> closes_of (WrapServer j) (new_events v (snd (wrapServerConn_Close e j v)))
        = [Conn (serverWraps v ! j)]
    \<and> wrapper_at (snd (wrapServerConn_Close e j v)) (WrapServer j)
        = Some ((serverWraps v ! j)\<lparr>closed := True,
                  closeErr := raw_Close e (trace v) (Conn (serverWraps v ! j))\<rparr>)
    \<and> (fst (wrapServerConn_Close e j v) = Inr (raw_Close e (trace v) (Conn (serverWraps v ! j)))
         \<or> (\<exists>f. fst (wrapServerConn_Close e j v) = Inl f))
    \<and> (attached v \<longrightarrow>
          fst (wrapServerConn_Close e j v) = Inr (raw_Close e (trace v) (Conn (serverWraps v ! j))))
    \<and> (\<forall>cc k. connCtx (serverWraps v ! j) = Some u \<and> ClientConn (ctx v) = Some cc
                \<and> cc_Conn cc = Some k \<longrightarrow>
          Close_reached v (snd (wrapServerConn_Close e j v)) k)
    \<and> (\<forall>ks. wrapServerConn_Close e j (Close_seq e ks (snd (wrapServerConn_Close e j v)))
          = (Inr (raw_Close e (trace v) (Conn (serverWraps v ! j))),
             Close_seq e ks (snd (wrapServerConn_Close e j v)))))"
proof (intro conjI impI allI)
  assume a: "i < length (clientWraps w) \<and> \<not> closed (clientWraps w ! i)
               \<and> connCtx (clientWraps w ! i) = Some u"
  then have i: "i < length (clientWraps w)" and o: "\<not> closed (clientWraps w ! i)"
    and u: "connCtx (clientWraps w ! i) = Some u" by simp_all
  show "events_by (WrapClient i) (new_events w (snd (wrapClientConn_Close e i w)))
          = UnderlyingClose (WrapClient i) (Conn (clientWraps w ! i))
              # map (ClientDisconnected (WrapClient i)) (Addons (proxy (clientWraps w ! i)))"
    by (rule first_client_Close_events [OF i o u])
  show "closes_of (WrapClient i) (new_events w (snd (wrapClientConn_Close e i w)))
          = [Conn (clientWraps w ! i)]"
    by (rule first_client_Close(1) [OF i o u])
  show "wrapper_at (snd (wrapClientConn_Close e i w)) (WrapClient i)
          = Some ((clientWraps w ! i)\<lparr>closed := True,
                    closeErr := raw_Close e (trace w) (Conn (clientWraps w ! i))\<rparr>)"
    using first_client_Close(3,4) [OF i o u, of e] by simp
  show "fst (wrapClientConn_Close e i w) = Inr (raw_Close e (trace w) (Conn (clientWraps w ! i)))
         \<or> (\<exists>f. fst (wrapClientConn_Close e i w) = Inl f)"
    by (rule client_Close_result [OF i o u])
  show "fst (wrapClientConn_Close e i w) = Inr (raw_Close e (trace w) (Conn (clientWraps w ! i)))"
    if "attached w"
    using client_Close_result [OF i o u, of e] attached_no_panic(1) [OF that i, of e] by auto
  show "Close_reached w (snd (wrapClientConn_Close e i w)) k"
    if "ServerConn (ctx w) = Some sc \<and> sc_Conn sc = Some k" for sc k
    using client_cascade_reached [OF i o u, of sc k e] that by simp
  show "fst (wrapClientConn_Close e i w) = Inr (raw_Close e (trace w) (Conn (clientWraps w ! i)))"
    if "ServerConn (ctx w) = None \<or> (\<exists>sc. ServerConn (ctx w) = Some sc \<and> sc_Conn sc = None)"
    by (rule client_Close_alone(1) [OF i o u that])
  show "new_events w (snd (wrapClientConn_Close e i w))
            = UnderlyingClose (WrapClient i) (Conn (clientWraps w ! i))
                # map (ClientDisconnected (WrapClient i)) (Addons (proxy (clientWraps w ! i)))"
    if "ServerConn (ctx w) = None \<or> (\<exists>sc. ServerConn (ctx w) = Some sc \<and> sc_Conn sc = None)"
    by (rule client_Close_alone(2) [OF i o u that])
  show "wrapClientConn_Close e i (Close_seq e ks (snd (wrapClientConn_Close e i w)))
          = (Inr (raw_Close e (trace w) (Conn (clientWraps w ! i))),
             Close_seq e ks (snd (wrapClientConn_Close e i w)))" for ks
    by (rule client_Close_again [OF i o u])
next
  assume a: "j < length (serverWraps v) \<and> \<not> closed (serverWraps v ! j)"
  then have j: "j < length (serverWraps v)" and o: "\<not> closed (serverWraps v ! j)"
    by simp_all
  show "events_by (WrapServer j) (new_events v (snd (wrapServerConn_Close e j v)))
          = UnderlyingClose (WrapServer j) (Conn (serverWraps v ! j))
              # map (ServerDisconnected (WrapServer j)) (Addons (proxy (serverWraps v ! j)))"
    by (rule first_server_Close_events [OF j o])
  show "closes_of (WrapServer j) (new_events v (snd (wrapServerConn_Close e j v)))
          = [Conn (serverWraps v ! j)]"
    by (rule first_server_Close(1) [OF j o])
  show "wrapper_at (snd (wrapServerConn_Close e j v)) (WrapServer j)
          = Some ((serverWraps v ! j)\<lparr>closed := True,
                    closeErr := raw_Close e (trace v) (Conn (serverWraps v ! j))\<rparr>)"
    using first_server_Close(3,4) [OF j o, of e] by simp
  show "fst (wrapServerConn_Close e j v) = Inr (raw_Close e (trace v) (Conn (serverWraps v ! j)))
         \<or> (\<exists>f. fst (wrapServerConn_Close e j v) = Inl f)"
    by (rule server_Close_result [OF j o])
  show "fst (wrapServerConn_Close e j v) = Inr (raw_Close e (trace v) (Conn (serverWraps v ! j)))"
    if "attached v"
    using server_Close_result [OF j o, of e] attached_no_panic(2) [OF that j, of e] by auto
  show "Close_reached v (snd (wrapServerConn_Close e j v)) k"
    if "connCtx (serverWraps v ! j) = Some u \<and> ClientConn (ctx v) = Some cc
          \<and> cc_Conn cc = Some k" for cc k
    using server_cascade_reached [OF j o, of u cc k e] that by simp
  show "wrapServerConn_Close e j (Close_seq e ks (snd (wrapServerConn_Close e j v)))
          = (Inr (raw_Close e (trace v) (Conn (serverWraps v ! j))),
             Close_seq e ks (snd (wrapServerConn_Close e j v)))" for ks
    by (rule server_Close_again [OF j o])
qed

theorem Close_first_and_again_witness:
  "0 < length (clientWraps tls_session) \<and> \<not> closed (clientWraps tls_session ! 0)
   \<and> connCtx (clientWraps tls_session ! 0) = Some ()
   \<and> attached tls_session
   \<and> events_by (WrapClient 0) (new_events tls_session (snd (wrapClientConn_Close env0 0 tls_session)))
       = [UnderlyingClose (WrapClient 0) 10, ClientDisconnected (WrapClient 0) 0,
          ClientDisconnected (WrapClient 0) 1]
   \<and> fst (wrapClientConn_Close env0 0 tls_session) = Inr None
   \<and> ServerConn (ctx tls_session) = Some pending_sc \<and> sc_Conn pending_sc = Some (WrapServer 0)
   \<and> Close_reached tls_session (snd (wrapClientConn_Close env0 0 tls_session)) (WrapServer 0)
   \<and> (\<forall>ks. wrapClientConn_Close env0 0 (Close_seq env0 ks (snd (wrapClientConn_Close env0 0 tls_session)))
         = (Inr None, Close_seq env0 ks (snd (wrapClientConn_Close env0 0 tls_session))))
   \<and> 0 < length (clientWraps plain_session) \<and> \<not> closed (clientWraps plain_session ! 0)
   \<and> connCtx (clientWraps plain_session ! 0) = Some ()
   \<and> ServerConn (ctx plain_session) = None
   \<and> fst (wrapClientConn_Close env0 0 plain_session) = Inr None
   \<and> new_events plain_session (snd (wrapClientConn_Close env0 0 plain_session))
       = [UnderlyingClose (WrapClient 0) 10, ClientDisconnected (WrapClient 0) 0,
          ClientDisconnected (WrapClient 0) 1]
   \<and> 0 < length (serverWraps tls_session) \<and> \<not> closed (serverWraps tls_session ! 0)
   \<and> events_by (WrapServer 0) (new_events tls_session (snd (wrapServerConn_Close env0 0 tls_session)))
       = [UnderlyingClose (WrapServer 0) 20, ServerDisconnected (WrapServer 0) 0,
          ServerDisconnected (WrapServer 0) 1]
   \<and> fst (wrapServerConn_Close env0 0 tls_session) = Inr None
   \<and> connCtx (serverWraps tls_session ! 0) = Some ()
   \<and> ClientConn (ctx tls_session) = Some \<lparr>cc_Id = 0, cc_Conn = Some (WrapClient 0), Tls = True\<rparr>
   \<and> Close_reached tls_session (snd (wrapServerConn_Close env0 0 tls_session)) (WrapClient 0)
   \<and> (\<forall>ks. wrapServerConn_Close env0 0 (Close_seq env0 ks (snd (wrapServerConn_Close env0 0 tls_session)))
         = (Inr None, Close_seq env0 ks (snd (wrapServerConn_Close env0 0 tls_session))))"
proof -
  have c: "clientWraps tls_session ! 0
             = \<lparr>Conn = 10, proxy = proxy0, connCtx = Some (), closed = False, closeErr = None\<rparr>"
          "length (clientWraps tls_session) = 1"
          "clientWraps plain_session ! 0
             = \<lparr>Conn = 10, proxy = proxy0, connCtx = Some (), closed = False, closeErr = None\<rparr>"
          "length (clientWraps plain_session) = 1"
          "serverWraps tls_session ! 0
             = \<lparr>Conn = 20, proxy = proxy0, connCtx = Some (), closed = False, closeErr = None\<rparr>"
          "length (serverWraps tls_session) = 1"
    by (simp_all add: tls_session_def plain_session_def)
  have x: "ServerConn (ctx tls_session) = Some pending_sc"
          "sc_Conn pending_sc = Some (WrapServer 0)"
          "ServerConn (ctx plain_session) = None"
          "ClientConn (ctx tls_session)
             = Some \<lparr>cc_Id = 0, cc_Conn = Some (WrapClient 0), Tls = True\<rparr>"
          "trace tls_session = []" "trace plain_session = []"
    by (simp_all add: tls_session_def plain_session_def pending_sc_def)
  have r: "raw_Close env0 [] r = None" for r
    by (simp add: env0_def)
  have a: "Addons proxy0 = [0, 1]"
    by (simp add: proxy0_def)
  have t: "attached tls_session"
    by (simp add: attached_def tls_session_def pending_sc_def)
  show ?thesis
    using Close_first_and_again [where w = tls_session and i = 0 and u = "()" and e = env0
            and v = tls_session and j = 0]
          Close_first_and_again [where w = plain_session and i = 0 and u = "()" and e = env0
            and v = tls_session and j = 0]
    by (simp add: c x r a t)
qed

section \<open>Proofs: overlapping calls\<close>

lemma run_Close_alone:
  "run_Close e [0, 0, 0, 0, 0] ([(x, At_test)], w)
     = ([(x, Returned (fst (conn_Close e x w)))], snd (conn_Close e x w))"
proof (cases x)
  case (RawConn r)
  then show ?thesis by (simp add: conn_Close_cases)
next
  case (WrapClient i)
  show ?thesis
  proof (cases "i < length (clientWraps w) \<and> \<not> closed (clientWraps w ! i)")
    case False
    then show ?thesis
      using WrapClient
      by (cases "length (clientWraps w) \<le> i")
         (auto simp: conn_Close_cases wrapClientConn_Close_nil wrapClientConn_Close_closed)
  next
    case True
    then show ?thesis
      using WrapClient
      by (auto simp: conn_Close_cases wrapClientConn_Close_open Let_def emit_def
                 client_notified_def client_closed_def
               split: option.splits prod.splits sum.splits)
  qed
next
  case (WrapServer j)
  show ?thesis
  proof (cases "j < length (serverWraps w) \<and> \<not> closed (serverWraps w ! j)")
    case False
    then show ?thesis
      using WrapServer
      by (cases "length (serverWraps w) \<le> j")
         (auto simp: conn_Close_cases wrapServerConn_Close_nil wrapServerConn_Close_closed)
  next
    case True
    then show ?thesis
      using WrapServer
      by (auto simp: conn_Close_cases wrapServerConn_Close_open Let_def emit_def
                 server_notified_def server_closed_def
               split: option.splits prod.splits sum.splits)
  qed
qed

lemma closed_once_step:
  assumes inv: "closed_once w" and post: "Close_post w w'"
  shows "closed_once w'"
proof -
  from post obtain es where es: "trace w' = trace w @ es" "\<forall>x. once w w' es x"
    by (auto simp: Close_post_def)
  have l: "list_all2 later (clientWraps w) (clientWraps w')"
          "list_all2 later (serverWraps w) (serverWraps w')"
    using post by (simp_all add: Close_post_def)
  have "case wrapper_at w' x of
          None \<Rightarrow> closes_of x (trace w') = [] \<and> notes_of x (trace w') = []
        | Some c \<Rightarrow>
            (\<not> closed c \<longrightarrow> closes_of x (trace w') = [] \<and> notes_of x (trace w') = [])
          \<and> length (closes_of x (trace w')) \<le> 1
          \<and> (notes_of x (trace w') = [] \<or> notes_of x (trace w') = Addons (proxy c))" for x
  proof (cases "wrapper_at w x")
    case None
    then have "wrapper_at w' x = None" using wrapper_at_later [OF l] by blast
    moreover from None es(2) have "closes_of x es = [] \<and> notes_of x es = []"
      by (auto simp: once_def)
    moreover from None inv have "closes_of x (trace w) = [] \<and> notes_of x (trace w) = []"
      by (auto simp: closed_once_def split: option.splits dest: spec [of _ x])
    ultimately show ?thesis by (simp add: es(1) trace_simps)
  next
    case (Some c)
    then obtain c' where c': "wrapper_at w' x = Some c'" "later c c'"
      using wrapper_at_later [OF l] by blast
    from Some inv have old:
      "\<not> closed c \<longrightarrow> closes_of x (trace w) = [] \<and> notes_of x (trace w) = []"
      "length (closes_of x (trace w)) \<le> 1"
      "notes_of x (trace w) = [] \<or> notes_of x (trace w) = Addons (proxy c)"
      by (auto simp: closed_once_def split: option.splits dest: spec [of _ x])
    show ?thesis
    proof (cases "closes_of x es = [] \<and> notes_of x es = []")
      case True
      with old c' show ?thesis
        by (auto simp: es(1) trace_simps later_def)
    next
      case False
      with es(2) Some have new: "\<not> closed c" "is_closed w' x" "closes_of x es = [Conn c]"
          "notes_of x es = [] \<or> notes_of x es = Addons (proxy c)"
        by (auto simp: once_def)
      with old c' show ?thesis
        by (auto simp: es(1) trace_simps later_def is_closed_def)
    qed
  qed
  then show ?thesis by (simp add: closed_once_def)
qed

lemma closed_once_length:
  "closed_once w \<Longrightarrow> length (closes_of x (trace w)) \<le> 1"
  by (auto simp: closed_once_def split: option.splits dest: spec [of _ x])

text \<open>
  C8, as the code has it.  The flag is read at line 215 (262) and written at line
  219 (266) without a lock.  For \<open>Close\<close> calls that do not overlap, each
  returning before the next begins, with the re-entrant calls of the cascade inside
  them, every wrapper closes its embedded connection at most once and notifies
  each addon at most once.
\<close>

theorem Close_seq_closed_once:
  assumes "closed_once w"
  shows "closed_once (Close_seq e ks w)"
  using assms closed_once_step [OF _ Close_post_Close_seq] by blast

theorem Close_seq_closed_once_witness:
  "closed_once tls_session
   \<and> closed_once (Close_seq env0 [WrapClient 0, WrapServer 0, WrapClient 0, RawConn 10] tls_session)"
proof -
  have "closed_once tls_session"
    by (simp add: closed_once_def tls_session_def split: option.splits)
  then show ?thesis
    using Close_seq_closed_once [of tls_session env0] by (intro conjI)
qed

text \<open>
  C8 as stated fails for calls that overlap.  One goroutine closes the client
  wrapper and has tested the flag (line 215) when another closes the server wrapper,
  whose cascade closes the client wrapper; then the first goes on from line 219.
  The client wrapper has closed its connection twice and notified each addon twice.
\<close>

theorem overlapping_Close_counterexample:
  "closed_once tls_session
   \<and> closes_of (WrapClient 0) (trace (snd (run_Close env0 [0, 1, 1, 1, 1, 1, 0, 0, 0, 0]
        ([(WrapClient 0, At_test), (WrapServer 0, At_test)], tls_session)))) = [10, 10]
   \<and> notes_of (WrapClient 0) (trace (snd (run_Close env0 [0, 1, 1, 1, 1, 1, 0, 0, 0, 0]
        ([(WrapClient 0, At_test), (WrapServer 0, At_test)], tls_session)))) = [0, 1, 0, 1]
   \<and> \<not> closed_once (snd (run_Close env0 [0, 1, 1, 1, 1, 1, 0, 0, 0, 0]
        ([(WrapClient 0, At_test), (WrapServer 0, At_test)], tls_session)))"
proof -
  let ?w = "snd (run_Close env0 [0, 1, 1, 1, 1, 1, 0, 0, 0, 0]
        ([(WrapClient 0, At_test), (WrapServer 0, At_test)], tls_session))"
  have t: "trace ?w =
       [UnderlyingClose (WrapServer 0) 20, ServerDisconnected (WrapServer 0) 0,
        ServerDisconnected (WrapServer 0) 1, UnderlyingClose (WrapClient 0) 10,
        ClientDisconnected (WrapClient 0) 0, ClientDisconnected (WrapClient 0) 1,
        UnderlyingClose (WrapClient 0) 10, ClientDisconnected (WrapClient 0) 0,
        ClientDisconnected (WrapClient 0) 1]"
    by code_simp
  have c: "closes_of (WrapClient 0) (trace ?w) = [10, 10]"
    by (subst t) simp
  have n: "notes_of (WrapClient 0) (trace ?w) = [0, 1, 0, 1]"
    by (subst t) simp
  have i: "closed_once tls_session"
    by (simp add: closed_once_def tls_session_def split: option.splits)
  have "\<not> closed_once ?w"
  proof
    assume "closed_once ?w"
    from closed_once_length [OF this, of "WrapClient 0"] show False
      by (subst (asm) c) simp
  qed
  with c n i show ?thesis by (intro conjI)
qed

section \<open>Proofs: the handshake rendezvous\<close>

lemma handshakes_append: "handshakes (es @ fs) = handshakes es @ handshakes fs"
  by (induction es rule: handshakes.induct) simp_all

lemma reader_ok_waiting:
  "\<not> tlsHandshaked c \<Longrightarrow> list_all (reader_ok c) rs \<Longrightarrow> list_all (reader_ok c') rs"
  by (induction rs) (auto simp: reader_ok_def)

lemma reader_ok_same:
  "tlsHandshaked c' = tlsHandshaked c \<Longrightarrow> tlsState c' = tlsState c \<Longrightarrow>
   list_all (reader_ok c) rs \<Longrightarrow> list_all (reader_ok c') rs"
  by (induction rs) (auto simp: reader_ok_def)

lemma rendezvous_inv_cert_step:
  assumes "rendezvous_inv e h out n0 (p, rs, w)"
  shows "rendezvous_inv e h out n0
           (fst (getCertificate_step e h p w), rs, snd (getCertificate_step e h p w))"
proof -
  from assms obtain c where c: "ServerConn (ctx w) = Some c"
    by (auto simp: rendezvous_inv_def split: option.splits)
  note inv = assms [unfolded rendezvous_inv_def, simplified, unfolded c, simplified]
  show ?thesis
  proof (cases p)
    case At_handshake
    with inv c show ?thesis
      by (cases "sc_Conn c")
         (auto simp: rendezvous_inv_def Let_def emit_def handshakes_append snapshot_of_def
               split: sum.splits elim: reader_ok_waiting [rotated])
  next
    case (At_cache_err err)
    with inv c show ?thesis
      by (auto simp: rendezvous_inv_def elim: reader_ok_waiting [rotated])
  next
    case (At_close_failed err)
    with inv c show ?thesis
      by (auto simp: rendezvous_inv_def close_tlsHandshaked_def emit_def handshakes_append
                 snapshot_of_def
               elim: reader_ok_waiting [rotated])
  next
    case (At_cache_conn tc st)
    with inv c show ?thesis
      by (auto simp: rendezvous_inv_def elim: reader_ok_waiting [rotated])
  next
    case (At_cache_state st)
    with inv c show ?thesis
      by (auto simp: rendezvous_inv_def snapshot_of_def elim: reader_ok_waiting [rotated])
  next
    case At_close_ok
    with inv c show ?thesis
      by (auto simp: rendezvous_inv_def close_tlsHandshaked_def emit_def handshakes_append
               elim: reader_ok_waiting [rotated])
  next
    case At_GetCert
    with inv c show ?thesis
      by (auto simp: rendezvous_inv_def emit_def handshakes_append)
  next
    case (Cert_returned r)
    with assms show ?thesis by simp
  qed
qed

lemma reader_ok_step:
  "ServerConn (ctx w) = Some c \<Longrightarrow> reader_ok c r \<Longrightarrow> reader_ok c (TlsState_step r w)"
  by (cases r) (auto simp: reader_ok_def)

lemma rendezvous_inv_reader_step:
  assumes "rendezvous_inv e h out n0 (p, rs, w)" and "n < length rs"
  shows "rendezvous_inv e h out n0 (p, rs[n := TlsState_step (rs ! n) w], w)"
proof -
  from assms(1) obtain c where c: "ServerConn (ctx w) = Some c" "list_all (reader_ok c) rs"
    by (auto simp: rendezvous_inv_def split: option.splits)
  from c(2) assms(2) have "reader_ok c (rs ! n)"
    by (simp add: list_all_length)
  then have "reader_ok c (TlsState_step (rs ! n) w)"
    by (rule reader_ok_step [OF c(1)])
  with c(2) assms(2) have "list_all (reader_ok c) (rs[n := TlsState_step (rs ! n) w])"
    by (auto simp: list_all_length nth_list_update)
  with assms(1) c(1) show ?thesis
    by (simp add: rendezvous_inv_def)
qed

lemma rendezvous_inv_run:
  "rendezvous_inv e h out n0 s \<Longrightarrow> rendezvous_inv e h out n0 (run_rendezvous e h sched s)"
proof (induction e h sched s rule: run_rendezvous.induct)
  case (1 e h s)
  then show ?case by simp
next
  case (2 e h ts p rs w)
  from rendezvous_inv_cert_step [OF "2.prems"] "2.IH" show ?case
    by (simp add: case_prod_beta)
next
  case (3 e h n ts p rs w)
  then show ?case
    by (auto simp: rendezvous_inv_reader_step)
qed

lemma run_rendezvous_length:
  "length (fst (snd (run_rendezvous e h sched (p, rs, w)))) = length rs"
proof (induction e h sched "(p, rs, w)" arbitrary: p rs w rule: run_rendezvous.induct)
  case (1 e h)
  then show ?case by simp
next
  case (2 e h ts p rs w)
  then show ?case by (simp add: case_prod_beta)
next
  case (3 e h n ts p rs w)
  then show ?case by simp
qed

lemma rendezvous_inv_start:
  assumes "ServerConn (ctx w) = Some c" and "\<not> tlsHandshaked c" and "tlsState c = None"
  shows "rendezvous_inv e h
           (HandshakeContext e (sc_Conn c) (upstream_cfg e (ctx_proxy (ctx w)) h))
           (length (handshakes (trace w)))
           (At_handshake, replicate n At_receive, w)"
  using assms by (simp add: rendezvous_inv_def list_all_length reader_ok_def)

text \<open>The trace only grows, so the events of the run are what was added.\<close>

lemma getCertificate_step_trace:
  "\<exists>es. trace (snd (getCertificate_step e h p w)) = trace w @ es"
  by (cases p) (auto simp: Let_def emit_def close_tlsHandshaked_def
                     split: option.splits sum.splits)

lemma run_rendezvous_trace:
  "\<exists>es. trace (snd (snd (run_rendezvous e h sched (p, rs, w)))) = trace w @ es"
proof (induction e h sched "(p, rs, w)" arbitrary: p rs w rule: run_rendezvous.induct)
  case (1 e h)
  then show ?case by simp
next
  case (2 e h ts p rs w)
  obtain es where es: "trace (snd (getCertificate_step e h p w)) = trace w @ es"
    using getCertificate_step_trace by blast
  obtain p' w' where pw: "getCertificate_step e h p w = (p', w')"
    by (cases "getCertificate_step e h p w")
  from "2.hyps" [OF pw [symmetric]] obtain fs where
    "trace (snd (snd (run_rendezvous e h ts (p', rs, w')))) = trace w' @ fs" by blast
  with es pw show ?case by simp
next
  case (3 e h n ts p rs w)
  then show ?case by simp
qed

text \<open>Once the channel is closed, a caller that gets two steps is back with the snapshot.\<close>

lemma reader_returns:
  assumes "ServerConn (ctx w) = Some c" and "tlsHandshaked c" and "reader_ok c r"
  shows "TlsState_step (TlsState_step r w) w = Read_returned (Inr (tlsState c))"
  using assms by (cases r) (auto simp: reader_ok_def)

text \<open>A goroutine alone in \<open>getCertificate\<close> computes what the function computes.\<close>

lemma run_rendezvous_alone:
  "run_rendezvous e h [0, 0, 0, 0, 0] (At_handshake, rs, w)
     = (Cert_returned (fst (getCertificate e h w)), rs, snd (getCertificate e h w))"
  by (auto simp: getCertificate_def Let_def emit_def close_tlsHandshaked_def
           split: option.splits sum.splits)

text \<open>
  C7.  Start with a \<open>ServerConn\<close> as \<open>newServerConn\<close> makes it (signal pending,
  no snapshot), one goroutine in \<open>getCertificate\<close> and any number \<open>n\<close> of
  callers of \<open>TlsState\<close>, and let them step in any order.  At every moment:
  a caller is past the receive of line 49 only if the signal has fired; every
  caller that has returned has returned the snapshot cached in the \<open>ServerConn\<close>;
  once the signal has fired that snapshot is the state of the successful handshake,
  or \<open>None\<close> when the handshake failed, and every caller returns it after its two
  steps; and the run has performed at most one handshake.
\<close>

theorem TlsState_rendezvous:
  assumes "ServerConn (ctx w) = Some c" and "\<not> tlsHandshaked c" and "tlsState c = None"
  shows "case run_rendezvous e h sched (At_handshake, replicate n At_receive, w) of
           (p, rs, w') \<Rightarrow>
             (case ServerConn (ctx w') of
                None \<Rightarrow> False
              | Some c' \<Rightarrow>
                  length rs = n
                \<and> list_all (reader_ok c') rs
                \<and> (tlsHandshaked c' \<longrightarrow>
                     tlsState c' = snapshot_of
                       (HandshakeContext e (sc_Conn c) (upstream_cfg e (ctx_proxy (ctx w)) h))
                   \<and> list_all (\<lambda>r. TlsState_step (TlsState_step r w') w'
                                      = Read_returned (Inr (tlsState c'))) rs)
                \<and> length (handshakes (new_events w w')) \<le> 1)"
proof -
  let ?out = "HandshakeContext e (sc_Conn c) (upstream_cfg e (ctx_proxy (ctx w)) h)"
  let ?s = "run_rendezvous e h sched (At_handshake, replicate n At_receive, w)"
  obtain p rs w' where s: "?s = (p, rs, w')" by (cases ?s)
  have inv: "rendezvous_inv e h ?out (length (handshakes (trace w))) (p, rs, w')"
    using rendezvous_inv_run [where e = e and h = h and sched = sched,
            OF rendezvous_inv_start [OF assms, where e = e and h = h and n = n]] s
    by simp
  then obtain c' where c': "ServerConn (ctx w') = Some c'"
    by (auto simp: rendezvous_inv_def split: option.splits)
  note i = inv [unfolded rendezvous_inv_def, simplified, unfolded c', simplified]
  have len: "length rs = n"
    using run_rendezvous_length [of e h sched At_handshake "replicate n At_receive" w] s by simp
  have ok: "list_all (reader_ok c') rs" using i by simp
  have snap: "tlsState c' = snapshot_of ?out" if "tlsHandshaked c'"
    using i that by (cases p) auto
  have ret: "list_all (\<lambda>r. TlsState_step (TlsState_step r w') w'
                             = Read_returned (Inr (tlsState c'))) rs" if "tlsHandshaked c'"
    using ok reader_returns [OF c' that] by (auto simp: list_all_iff)
  obtain es where es: "trace w' = trace w @ es"
    using run_rendezvous_trace [of e h sched At_handshake "replicate n At_receive" w] s by auto
  have "length (handshakes (trace w')) \<le> Suc (length (handshakes (trace w)))"
    using i by (auto split: if_splits)
  then have hs: "length (handshakes (new_events w w')) \<le> 1"
    by (simp add: es new_events_def handshakes_append)
  show ?thesis
    using len ok snap ret hs by (simp add: s c')
qed

theorem TlsState_rendezvous_witness:
  "ServerConn (ctx tls_session) = Some pending_sc \<and> \<not> tlsHandshaked pending_sc
   \<and> tlsState pending_sc = None
   \<and> (case run_rendezvous env0 hello0 [1, 0, 1, 0, 0, 2, 0, 1, 1, 2, 0, 2]
              (At_handshake, replicate 2 At_receive, tls_session) of
         (p, rs, w') \<Rightarrow>
           (case ServerConn (ctx w') of
              None \<Rightarrow> False
            | Some c' \<Rightarrow>
                length rs = 2
              \<and> list_all (reader_ok c') rs
              \<and> (tlsHandshaked c' \<longrightarrow>
                   tlsState c' = snapshot_of
                     (HandshakeContext env0 (sc_Conn pending_sc)
                        (upstream_cfg env0 (ctx_proxy (ctx tls_session)) hello0))
                 \<and> list_all (\<lambda>r. TlsState_step (TlsState_step r w') w'
                                    = Read_returned (Inr (tlsState c'))) rs)
              \<and> length (handshakes (new_events tls_session w')) \<le> 1))
   \<and> (case ServerConn (ctx (snd (snd (run_rendezvous env0 hello0
              [1, 0, 1, 0, 0, 2, 0, 1, 1, 2, 0, 2]
              (At_handshake, replicate 2 At_receive, tls_session))))) of
         None \<Rightarrow> False
       | Some c' \<Rightarrow> tlsHandshaked c' \<and> tlsState c' = Some (ConnectionState 0x0304 0x1301))
   \<and> fst (snd (run_rendezvous env0 hello0 [1, 0, 1, 0, 0, 2, 0, 1, 1, 2, 0, 2]
              (At_handshake, replicate 2 At_receive, tls_session)))
       = [Read_returned (Inr (Some (ConnectionState 0x0304 0x1301))),
          Read_returned (Inr (Some (ConnectionState 0x0304 0x1301)))]
   \<and> fst (snd (run_rendezvous env0 hello2 [1, 0, 1, 0, 0, 2, 0, 1, 1, 2, 0, 2]
              (At_handshake, replicate 2 At_receive, tls_session)))
       = [Read_returned (Inr None), Read_returned (Inr None)]"
proof -
  have s: "ServerConn (ctx tls_session) = Some pending_sc" by (simp add: tls_session_def)
  have p: "\<not> tlsHandshaked pending_sc" by (simp add: pending_sc_def)
  have n: "tlsState pending_sc = None" by (simp add: pending_sc_def)
  have a: "fst (snd (run_rendezvous env0 hello0 [1, 0, 1, 0, 0, 2, 0, 1, 1, 2, 0, 2]
              (At_handshake, replicate 2 At_receive, tls_session)))
       = [Read_returned (Inr (Some (ConnectionState 0x0304 0x1301))),
          Read_returned (Inr (Some (ConnectionState 0x0304 0x1301)))]"
    by code_simp
  have b: "fst (snd (run_rendezvous env0 hello2 [1, 0, 1, 0, 0, 2, 0, 1, 1, 2, 0, 2]
              (At_handshake, replicate 2 At_receive, tls_session)))
       = [Read_returned (Inr None), Read_returned (Inr None)]"
    by code_simp
  have f: "case ServerConn (ctx (snd (snd (run_rendezvous env0 hello0
              [1, 0, 1, 0, 0, 2, 0, 1, 1, 2, 0, 2]
              (At_handshake, replicate 2 At_receive, tls_session))))) of
         None \<Rightarrow> False
       | Some c' \<Rightarrow> tlsHandshaked c' \<and> tlsState c' = Some (ConnectionState 0x0304 0x1301)"
    by code_simp
  show ?thesis
    using TlsState_rendezvous [OF s p n, where e = env0 and h = hello0 and n = 2
            and sched = "[1, 0, 1, 0, 0, 2, 0, 1, 1, 2, 0, 2]"]
          s p n a b f
    by (intro conjI)
qed

end
